theory Spec2Isabelle
  imports Main
begin

section \<open>In-memory history (createMemoryHistory)\<close>

text \<open>
  The closure variables of \<^verbatim>\<open>createMemoryHistory\<close> are the fields of a record:
  the registered listeners (callbacks, named by a number), the queue of locations and the
  position in it. \<^verbatim>\<open>position\<close> is a JavaScript number; every operation keeps it an
  integer, so it is an \<^typ>\<open>int\<close>.
\<close>

record memory_history =
  listeners :: "nat list"
  queue :: "string list"
  position :: int

datatype NavigationDirection = dir_back | dir_forward | dir_unknown

datatype NavigationType = pop | push_type

record NavigationInformation =
  info_type :: NavigationType
  direction :: NavigationDirection
  delta :: int

text \<open>One call of a listener: the callback, \<^verbatim>\<open>to\<close>, \<^verbatim>\<open>from\<close> and the information.
  A location read out of range is \<^verbatim>\<open>undefined\<close> in JavaScript, here \<^const>\<open>None\<close>.\<close>

type_synonym listener_call = "nat \<times> string option \<times> string option \<times> NavigationInformation"

text \<open>\<^verbatim>\<open>Array.prototype.splice\<close>: a negative start counts from the end, a start beyond
  the end is the end.\<close>

definition splice_start :: "'a list \<Rightarrow> int \<Rightarrow> nat" where
  "splice_start xs start =
     (if start < 0 then nat (max (int (length xs) + start) 0)
      else nat (min start (int (length xs))))"

text \<open>\<^verbatim>\<open>xs.splice(start)\<close>: everything from start on is removed.\<close>

definition splice_rest :: "'a list \<Rightarrow> int \<Rightarrow> 'a list" where
  "splice_rest xs start = take (splice_start xs start) xs"

text \<open>\<^verbatim>\<open>xs.splice(start, 1)\<close>: one element is removed, if there is one at start.\<close>

definition splice_one :: "'a list \<Rightarrow> int \<Rightarrow> 'a list" where
  "splice_one xs start =
     take (splice_start xs start) xs @ drop (Suc (splice_start xs start)) xs"

definition START :: string where
  "START = ''''"

definition createMemoryHistory :: memory_history where
  "createMemoryHistory = \<lparr> listeners = [], queue = [START], position = 0 \<rparr>"

definition setLocation :: "memory_history \<Rightarrow> string \<Rightarrow> memory_history" where
  "setLocation h location =
     (let p = position h + 1 in
      if p = int (length (queue h))
      then h\<lparr> position := p, queue := queue h @ [location] \<rparr>
      else h\<lparr> position := p, queue := splice_rest (queue h) p @ [location] \<rparr>)"

text \<open>The getter installed by \<^verbatim>\<open>Object.defineProperty\<close>: \<^verbatim>\<open>queue[position]\<close>.\<close>

definition location :: "memory_history \<Rightarrow> string option" where
  "location h =
     (if 0 \<le> position h \<and> position h < int (length (queue h))
      then Some (queue h ! nat (position h)) else None)"

definition replace :: "memory_history \<Rightarrow> string \<Rightarrow> memory_history" where
  "replace h to =
     setLocation (h\<lparr> queue := splice_one (queue h) (position h),
                     position := position h - 1 \<rparr>) to"

definition push :: "memory_history \<Rightarrow> string \<Rightarrow> memory_history" where
  "push h to = setLocation h to"

definition listen :: "memory_history \<Rightarrow> nat \<Rightarrow> memory_history" where
  "listen h callback = h\<lparr> listeners := listeners h @ [callback] \<rparr>"

text \<open>The function returned by \<^verbatim>\<open>listen\<close>: the first occurrence of the callback is
  removed.\<close>

definition unlisten :: "memory_history \<Rightarrow> nat \<Rightarrow> memory_history" where
  "unlisten h callback = h\<lparr> listeners := remove1 callback (listeners h) \<rparr>"

definition destroy :: "memory_history \<Rightarrow> memory_history" where
  "destroy h = h\<lparr> listeners := [] \<rparr>"

definition triggerListeners ::
  "memory_history \<Rightarrow> string option \<Rightarrow> string option \<Rightarrow> NavigationDirection \<Rightarrow> int
     \<Rightarrow> listener_call list" where
  "triggerListeners h to from dir d =
     map (\<lambda>callback. (callback, to, from,
            \<lparr> info_type = pop, direction = dir, delta = d \<rparr>)) (listeners h)"

definition go :: "memory_history \<Rightarrow> int \<Rightarrow> bool \<Rightarrow> memory_history \<times> listener_call list" where
  "go h d shouldTrigger =
     (let from = location h;
          dir = (if d < 0 then dir_back else dir_forward);
          h' = h\<lparr> position := max 0 (min (position h + d) (int (length (queue h)) - 1)) \<rparr>
      in (h', if shouldTrigger then triggerListeners h' (location h') from dir d else []))"

text \<open>A call of the history object, and a sequence of calls from its creation.\<close>

datatype history_call =
  Push string | Replace string | Go int bool | Listen nat | Unlisten nat | Destroy

fun history_step :: "memory_history \<Rightarrow> history_call \<Rightarrow> memory_history" where
  "history_step h (Push to) = push h to"
| "history_step h (Replace to) = replace h to"
| "history_step h (Go d t) = fst (go h d t)"
| "history_step h (Listen c) = listen h c"
| "history_step h (Unlisten c) = unlisten h c"
| "history_step h Destroy = destroy h"

definition history_after :: "history_call list \<Rightarrow> memory_history" where
  "history_after calls = foldl history_step createMemoryHistory calls"

definition position_ok :: "memory_history \<Rightarrow> bool" where
  "position_ok h = (0 \<le> position h \<and> position h < int (length (queue h)))"

section \<open>Matcher registry (createRouterMatcher)\<close>

subsection \<open>Names, parameters and the path parser\<close>

text \<open>
  \<^verbatim>\<open>RouteRecordName\<close> is \<^verbatim>\<open>string | symbol\<close>. The source tests names with
  \<^verbatim>\<open>record.name && ...\<close>, so the empty string counts as no name.
\<close>

datatype RouteRecordName = NameString string | NameSymbol nat

fun truthy_name :: "RouteRecordName option \<Rightarrow> bool" where
  "truthy_name None = False"
| "truthy_name (Some (NameString s)) = (s \<noteq> [])"
| "truthy_name (Some (NameSymbol n)) = True"

datatype param_value = ParamString string | ParamArray "string list"

type_synonym PathParams = "string \<rightharpoonup> param_value"

text \<open>The three matching options and the optional overrides that a route record or the
  router options may carry; \<^verbatim>\<open>mergeOptions\<close> takes each key of the defaults from the
  partial options when it is present there.\<close>

record PathParserOptions =
  strict :: bool
  end_option :: bool
  sensitive :: bool

record PathParserOptions_partial =
  strict_given :: "bool option"
  end_given :: "bool option"
  sensitive_given :: "bool option"

definition mergeOptions :: "PathParserOptions \<Rightarrow> PathParserOptions_partial \<Rightarrow> PathParserOptions" where
  "mergeOptions defaults partialOptions =
     \<lparr> strict = (case strict_given partialOptions of Some b \<Rightarrow> b | None \<Rightarrow> strict defaults),
       end_option = (case end_given partialOptions of Some b \<Rightarrow> b | None \<Rightarrow> end_option defaults),
       sensitive = (case sensitive_given partialOptions of Some b \<Rightarrow> b | None \<Rightarrow> sensitive defaults) \<rparr>"

record PathParserParamKey =
  key_name :: string
  repeatable :: bool
  optional :: bool

datatype MatcherError = MATCHER_NOT_FOUND | MissingParam string | InvalidParam string

text \<open>
  The compiled parser of a path (module \<^verbatim>\<open>pathParserRanker\<close>) is not part of the
  sources at hand. It is a parameter: a record of the functions and data the registry
  reads from it. \<^verbatim>\<open>re.test(path)\<close> is the field \<open>re\<close>. The source reads
  \<^verbatim>\<open>matcher.parse(path)!\<close> only after \<^verbatim>\<open>re\<close> has accepted the path, asserting a
  non-null result; \<open>parse\<close> is that result.
\<close>

record PathParser =
  re :: "string \<Rightarrow> bool"
  score :: "int list list"
  keys :: "PathParserParamKey list"
  parse :: "string \<Rightarrow> PathParams"
  stringify :: "PathParams \<Rightarrow> MatcherError + string"

subsection \<open>Route records and matchers\<close>

text \<open>
  A raw route record. \<^verbatim>\<open>redirect\<close> and \<^verbatim>\<open>beforeEnter\<close> are functions or values of
  the application; they are named by numbers. Components, props and mounted instances
  concern rendering and are left out.
\<close>

datatype alias_option = NoAlias | AliasString string | AliasArray "string list"

datatype RouteRecordRaw = RouteRecordRaw
  (raw_path: string)
  (raw_name: "RouteRecordName option")
  (raw_alias: alias_option)
  (raw_children: "RouteRecordRaw list")
  (raw_redirect: "nat option")
  (raw_meta: "(string \<rightharpoonup> string) option")
  (raw_beforeEnter: "nat list option")
  (raw_options: PathParserOptions_partial)

text \<open>
  Matchers and their normalized records are objects compared by reference; each matcher
  owns exactly one normalized record. The registry keeps every matcher it ever created in
  an arena, and a reference to a matcher (or to its record) is the index in the arena.
  The arrays \<^verbatim>\<open>children\<close> and \<^verbatim>\<open>alias\<close> of a matcher are mutated in place, which
  is an update of the arena.
\<close>

record RouteRecordNormalized =
  path :: string
  redirect :: "nat option"
  name :: "RouteRecordName option"
  meta :: "string \<rightharpoonup> string"
  aliasOf :: "nat option"
  beforeEnter :: "nat list option"
  record_children :: "RouteRecordRaw list"

record RouteRecordMatcher =
  parser :: PathParser
  mrecord :: RouteRecordNormalized
  parent :: "nat option"
  children :: "nat list"
  aliases :: "nat list"

text \<open>
  The closure variables \<^verbatim>\<open>matchers\<close> and \<^verbatim>\<open>matcherMap\<close>, with the arena. The field
  \<open>inserted\<close> is a history variable that the source does not have: the matchers in the
  order in which \<^verbatim>\<open>insertMatcher\<close> received them. Nothing reads it; it is there to
  state the order of equally ranked matchers.
\<close>

record registry =
  arena :: "RouteRecordMatcher list"
  matchers :: "nat list"
  matcherMap :: "RouteRecordName \<rightharpoonup> nat"
  inserted :: "nat list"

text \<open>
  The parameters of the registry: the merged global options, and the two functions of the
  modules \<^verbatim>\<open>pathParserRanker\<close> and \<^verbatim>\<open>pathMatcher\<close> that are not among the sources:
  the compiler of a path into a parser and the comparator of two parsers. \<open>linksChild\<close>
  decides, from the record of a new matcher and the record of its parent, whether
  the new matcher is appended to the parent's \<^verbatim>\<open>children\<close>.
\<close>

record matcher_env =
  globalOptions :: PathParserOptions
  tokensToParser :: "string \<Rightarrow> PathParserOptions \<Rightarrow> PathParser"
  comparePathParserScore :: "PathParser \<Rightarrow> PathParser \<Rightarrow> int"
  linksChild :: "RouteRecordNormalized \<Rightarrow> RouteRecordNormalized \<Rightarrow> bool"

definition normalizeRouteRecord :: "RouteRecordRaw \<Rightarrow> RouteRecordNormalized" where
  "normalizeRouteRecord record =
     \<lparr> path = raw_path record,
       redirect = raw_redirect record,
       name = raw_name record,
       meta = (case raw_meta record of Some m \<Rightarrow> m | None \<Rightarrow> Map.empty),
       aliasOf = None,
       beforeEnter = raw_beforeEnter record,
       record_children = raw_children record \<rparr>"

text \<open>\<^verbatim>\<open>Array.prototype.indexOf\<close>: the first index of the element, or -1.\<close>

primrec indexOf :: "'a list \<Rightarrow> 'a \<Rightarrow> int" where
  "indexOf [] x = - 1"
| "indexOf (y # ys) x =
     (if y = x then 0 else (let r = indexOf ys x in if r < 0 then - 1 else r + 1))"

text \<open>
  \<^verbatim>\<open>isAliasRecord\<close> walks the parent links. A parent is an argument of
  \<^verbatim>\<open>createRouteRecordMatcher\<close>, so it exists before its child and has a smaller index;
  the walk stops at a link to an index that is not smaller, which no registry built by
  \<^verbatim>\<open>addRoute\<close> contains (lemma \<open>reg_inv_parents_older\<close>).
\<close>

function isAliasRecord :: "RouteRecordMatcher list \<Rightarrow> nat option \<Rightarrow> bool" where
  "isAliasRecord ar None = False"
| "isAliasRecord ar (Some m) =
     (if aliasOf (mrecord (ar ! m)) \<noteq> None then True
      else (case parent (ar ! m) of
              None \<Rightarrow> False
            | Some p \<Rightarrow> if p < m then isAliasRecord ar (Some p) else False))"
  by pat_completeness auto
termination
  by (relation "measure (\<lambda>(ar, r). case r of None \<Rightarrow> 0 | Some m \<Rightarrow> Suc m)") auto

text \<open>
  Modelled from the spec: \<^verbatim>\<open>createRouteRecordMatcher\<close> of the module \<^verbatim>\<open>pathMatcher\<close>,
  which is not among the sources. The spec gives a matcher its compiled parser, its
  record, an exclusive parent reference, a list of child matchers that it owns and a list
  of alias matchers that it owns. The new matcher starts with no children and no aliases,
  and it is registered among the children of its parent when \<open>linksChild\<close> says so.
\<close>

definition createRouteRecordMatcher ::
  "matcher_env \<Rightarrow> registry \<Rightarrow> RouteRecordNormalized \<Rightarrow> nat option \<Rightarrow> PathParserOptions
     \<Rightarrow> registry" where
  "createRouteRecordMatcher env reg record par options =
     (let matcher = length (arena reg);
          ar = arena reg @
               [\<lparr> parser = tokensToParser env (path record) options, mrecord = record,
                   parent = par, children = [], aliases = [] \<rparr>]
      in reg\<lparr> arena :=
           (case par of
              None \<Rightarrow> ar
            | Some p \<Rightarrow>
                if linksChild env record (mrecord (ar ! p))
                then ar[p := (ar ! p)\<lparr> children := children (ar ! p) @ [matcher] \<rparr>]
                else ar) \<rparr>)"

text \<open>\<^verbatim>\<open>original.alias.push(matcher)\<close>.\<close>

definition push_alias :: "registry \<Rightarrow> nat \<Rightarrow> nat \<Rightarrow> registry" where
  "push_alias reg original matcher =
     reg\<lparr> arena := (arena reg)[original :=
            (arena reg ! original)\<lparr> aliases := aliases (arena reg ! original) @ [matcher] \<rparr>] \<rparr>"

subsection \<open>removeRoute\<close>

text \<open>
  The branch of \<^verbatim>\<open>removeRoute\<close> for a matcher removes it from \<^verbatim>\<open>matchers\<close> when it
  is there, deletes its name from the map and calls itself on every child and then on
  every alias. \<open>removeMatchers\<close> is that recursion with its pending calls kept as a work list:
  the calls for the children and aliases of the matcher at hand come before the calls
  that were already pending, which is the order of the nested \<^verbatim>\<open>forEach\<close> loops.
  A matcher that is not in \<^verbatim>\<open>matchers\<close> is skipped together with its children.
\<close>

definition remove_at :: "registry \<Rightarrow> nat \<Rightarrow> int \<Rightarrow> registry" where
  "remove_at reg matcherRef index =
     (let reg1 = reg\<lparr> matchers := splice_one (matchers reg) index \<rparr>
      in if truthy_name (name (mrecord (arena reg ! matcherRef)))
         then reg1\<lparr> matcherMap :=
                (matcherMap reg1)(the (name (mrecord (arena reg ! matcherRef))) := None) \<rparr>
         else reg1)"

function removeMatchers :: "registry \<Rightarrow> nat list \<Rightarrow> registry" where
  "removeMatchers reg [] = reg"
| "removeMatchers reg (matcherRef # rest) =
     (let index = indexOf (matchers reg) matcherRef in
      if index > - 1
      then removeMatchers (remove_at reg matcherRef index)
             (children (arena reg ! matcherRef) @ aliases (arena reg ! matcherRef) @ rest)
      else removeMatchers reg rest)"
  by pat_completeness auto
termination
proof (relation "measures [\<lambda>(reg, work). length (matchers reg), \<lambda>(reg, work). length work]")
  have bound: "indexOf xs x < int (length xs)" for xs :: "nat list" and x
    by (induction xs) (auto simp: Let_def split: if_splits)
  fix reg :: registry and matcherRef :: nat and rest :: "nat list" and index
  assume "index = indexOf (matchers reg) matcherRef" "- 1 < index"
  then show "((remove_at reg matcherRef index,
               children (arena reg ! matcherRef) @ aliases (arena reg ! matcherRef) @ rest),
              reg, matcherRef # rest)
        \<in> measures [\<lambda>(reg, work). length (matchers reg), \<lambda>(reg, work). length work]"
    using bound [of "matchers reg" matcherRef]
    by (auto simp: remove_at_def Let_def splice_one_def splice_start_def)
qed auto

datatype matcher_ref = ByName RouteRecordName | ByMatcher nat

fun removeRoute :: "registry \<Rightarrow> matcher_ref \<Rightarrow> registry" where
  "removeRoute reg (ByName n) =
     (case matcherMap reg n of
        None \<Rightarrow> reg
      | Some matcher \<Rightarrow>
          removeMatchers
            (reg\<lparr> matcherMap := (matcherMap reg)(n := None),
                  matchers := splice_one (matchers reg) (indexOf (matchers reg) matcher) \<rparr>)
            (children (arena reg ! matcher) @ aliases (arena reg ! matcher)))"
| "removeRoute reg (ByMatcher matcher) = removeMatchers reg [matcher]"

subsection \<open>insertMatcher\<close>

text \<open>The loop \<^verbatim>\<open>while (i < matchers.length && compare(matcher, matchers[i]) >= 0) i++\<close>
  followed by \<^verbatim>\<open>matchers.splice(i, 0, matcher)\<close>.\<close>

fun insert_ranked :: "(nat \<Rightarrow> nat \<Rightarrow> int) \<Rightarrow> nat \<Rightarrow> nat list \<Rightarrow> nat list" where
  "insert_ranked cmp matcher [] = [matcher]"
| "insert_ranked cmp matcher (x # xs) =
     (if cmp matcher x \<ge> 0 then x # insert_ranked cmp matcher xs else matcher # x # xs)"

definition compare_matchers :: "matcher_env \<Rightarrow> RouteRecordMatcher list \<Rightarrow> nat \<Rightarrow> nat \<Rightarrow> int" where
  "compare_matchers env ar a b = comparePathParserScore env (parser (ar ! a)) (parser (ar ! b))"

definition insertMatcher :: "matcher_env \<Rightarrow> registry \<Rightarrow> nat \<Rightarrow> registry" where
  "insertMatcher env reg matcher =
     (let reg1 = reg\<lparr> matchers := insert_ranked (compare_matchers env (arena reg)) matcher (matchers reg),
                      inserted := inserted reg @ [matcher] \<rparr>
      in if truthy_name (name (mrecord (arena reg ! matcher)))
            \<and> \<not> isAliasRecord (arena reg) (Some matcher)
         then reg1\<lparr> matcherMap :=
                (matcherMap reg1)(the (name (mrecord (arena reg ! matcher))) \<mapsto> matcher) \<rparr>
         else reg1)"

subsection \<open>addRoute\<close>

definition nth_opt :: "'a list \<Rightarrow> nat \<Rightarrow> 'a option" where
  "nth_opt xs i = (if i < length xs then Some (xs ! i) else None)"

definition nested_path :: "string \<Rightarrow> string \<Rightarrow> string" where
  "nested_path parentPath p =
     (let connectingSlash = (if parentPath \<noteq> [] \<and> last parentPath = CHR ''/'' then [] else ''/'')
      in parentPath @ (if p = [] then [] else connectingSlash @ p))"

text \<open>The normalized records of a call: the main record, with \<^verbatim>\<open>aliasOf\<close> set to the
  record of \<^verbatim>\<open>originalRecord\<close> when there is one, and a copy for each alias path, which
  is an alias of the record of \<^verbatim>\<open>originalRecord\<close> or else of the main record, the record
  of the matcher \<open>main\<close> that the call creates first.\<close>

definition normalized_records ::
  "RouteRecordRaw \<Rightarrow> nat option \<Rightarrow> nat \<Rightarrow> RouteRecordNormalized list" where
  "normalized_records record originalRecord main =
     (let mainNormalizedRecord = (normalizeRouteRecord record)\<lparr> aliasOf := originalRecord \<rparr>;
          aliasPaths = (case raw_alias record of
                          NoAlias \<Rightarrow> [] | AliasString a \<Rightarrow> [a] | AliasArray as \<Rightarrow> as)
      in mainNormalizedRecord #
         map (\<lambda>a. mainNormalizedRecord\<lparr> path := a,
                aliasOf := (case originalRecord of
                              Some original \<Rightarrow> Some original
                            | None \<Rightarrow> Some main) \<rparr>) aliasPaths)"

text \<open>The path of a nested record that is not absolute is built from the path of the
  parent's record.\<close>

definition nested_record ::
  "registry \<Rightarrow> nat option \<Rightarrow> RouteRecordNormalized \<Rightarrow> RouteRecordNormalized" where
  "nested_record reg par normalizedRecord =
     (let p = path normalizedRecord
      in case par of
           Some pm \<Rightarrow>
             if p = [] \<or> hd p \<noteq> CHR ''/''
             then normalizedRecord\<lparr> path := nested_path (path (mrecord (arena reg ! pm))) p \<rparr>
             else normalizedRecord
         | None \<Rightarrow> normalizedRecord)"

text \<open>After the matcher is created: an alias is registered with its original; the first
  record of a call without \<^verbatim>\<open>originalRecord\<close> becomes \<^verbatim>\<open>originalMatcher\<close>, and when
  the record is named and the matcher is no alias record, the route of that name is
  removed.\<close>

definition link_matcher ::
  "registry \<Rightarrow> RouteRecordRaw \<Rightarrow> bool \<Rightarrow> nat option \<Rightarrow> nat option \<Rightarrow> nat \<Rightarrow> registry" where
  "link_matcher reg1 record isRootAdd originalRecord originalMatcher matcher =
     (case originalRecord of
        Some original \<Rightarrow> push_alias reg1 original matcher
      | None \<Rightarrow>
          (let om = (case originalMatcher of None \<Rightarrow> matcher | Some x \<Rightarrow> x);
               reg1a = (if om \<noteq> matcher then push_alias reg1 om matcher else reg1)
           in if isRootAdd \<and> truthy_name (raw_name record)
                 \<and> \<not> isAliasRecord (arena reg1a) (Some matcher)
              then removeRoute reg1a (ByName (the (raw_name record)))
              else reg1a))"

definition next_originalMatcher :: "nat option \<Rightarrow> nat option \<Rightarrow> nat \<Rightarrow> nat option" where
  "next_originalMatcher originalRecord originalMatcher matcher =
     (case originalRecord of
        Some original \<Rightarrow> originalMatcher
      | None \<Rightarrow> (case originalMatcher of None \<Rightarrow> Some matcher | Some x \<Rightarrow> Some x))"

text \<open>\<^verbatim>\<open>originalRecord && originalRecord.children[i]\<close>.\<close>

definition child_original :: "registry \<Rightarrow> nat option \<Rightarrow> nat \<Rightarrow> nat option" where
  "child_original reg originalRecord i =
     (case originalRecord of
        None \<Rightarrow> None
      | Some original \<Rightarrow> nth_opt (children (arena reg ! original)) i)"

text \<open>
  \<^verbatim>\<open>addRoute\<close> is three mutually recursive functions: \<open>addRoute\<close> builds the
  normalized records, \<open>addRecords\<close> is the loop over them, with the variables
  \<^verbatim>\<open>originalRecord\<close> and \<^verbatim>\<open>originalMatcher\<close> that the loop reassigns, and
  \<open>addChildren\<close> is the loop over the children with its index. The result is the
  registry and \<^verbatim>\<open>originalMatcher\<close>, the matcher that the returned removal function
  closes over.
\<close>

function addRoute ::
  "matcher_env \<Rightarrow> RouteRecordRaw \<Rightarrow> nat option \<Rightarrow> nat option \<Rightarrow> registry
     \<Rightarrow> registry \<times> nat option"
and addRecords ::
  "matcher_env \<Rightarrow> RouteRecordRaw \<Rightarrow> nat option \<Rightarrow> bool \<Rightarrow> PathParserOptions
     \<Rightarrow> RouteRecordNormalized list \<Rightarrow> nat option \<Rightarrow> nat option \<Rightarrow> registry
     \<Rightarrow> registry \<times> nat option"
and addChildren ::
  "matcher_env \<Rightarrow> RouteRecordRaw list \<Rightarrow> nat \<Rightarrow> nat \<Rightarrow> nat option \<Rightarrow> registry \<Rightarrow> registry"
where
  "addRoute env record par originalRecord reg =
     addRecords env record par (originalRecord = None)
       (mergeOptions (globalOptions env) (raw_options record))
       (normalized_records record originalRecord (length (arena reg)))
       originalRecord None reg"
| "addRecords env record par isRootAdd options [] originalRecord originalMatcher reg =
     (reg, originalMatcher)"
| "addRecords env record par isRootAdd options (normalizedRecord # rest) originalRecord
      originalMatcher reg =
     (let matcher = length (arena reg);
          reg1 = createRouteRecordMatcher env reg (nested_record reg par normalizedRecord)
                   par options;
          reg2 = link_matcher reg1 record isRootAdd originalRecord originalMatcher matcher;
          reg3 = addChildren env (raw_children record) 0 matcher originalRecord reg2;
          reg4 = insertMatcher env reg3 matcher
      in addRecords env record par isRootAdd options rest
           (Some (case originalRecord of None \<Rightarrow> matcher | Some x \<Rightarrow> x))
           (next_originalMatcher originalRecord originalMatcher matcher) reg4)"
| "addChildren env [] i matcher originalRecord reg = reg"
| "addChildren env (child # rest) i matcher originalRecord reg =
     addChildren env rest (Suc i) matcher originalRecord
       (fst (addRoute env child (Some matcher) (child_original reg originalRecord i) reg))"
  by pat_completeness auto
termination
proof -
  have children_size: "size_list size (raw_children r) < size r" for r :: RouteRecordRaw
    by (cases r) simp
  show ?thesis
    by (relation "measures
        [\<lambda>x. case x of
               Inl (env, r, par, orig, reg) \<Rightarrow> size r
             | Inr (Inl (env, r, par, root, options, recs, orig, om, reg)) \<Rightarrow> size r
             | Inr (Inr (env, cs, i, matcher, orig, reg)) \<Rightarrow> size_list size cs,
         \<lambda>x. case x of
               Inl (env, r, par, orig, reg) \<Rightarrow> 1
             | Inr (Inl (env, r, par, root, options, recs, orig, om, reg)) \<Rightarrow> 0
             | Inr (Inr (env, cs, i, matcher, orig, reg)) \<Rightarrow> 0,
         \<lambda>x. case x of
               Inl (env, r, par, orig, reg) \<Rightarrow> 0
             | Inr (Inl (env, r, par, root, options, recs, orig, om, reg)) \<Rightarrow> length recs
             | Inr (Inr (env, cs, i, matcher, orig, reg)) \<Rightarrow> 0]")
      (simp_all add: children_size)
qed

definition createRouterMatcher ::
  "matcher_env \<Rightarrow> RouteRecordRaw list \<Rightarrow> PathParserOptions_partial \<Rightarrow> matcher_env \<times> registry" where
  "createRouterMatcher env routes options =
     (let env1 = env\<lparr> globalOptions :=
                   mergeOptions \<lparr> strict = False, end_option = True, sensitive = False \<rparr> options \<rparr>
      in (env1,
          foldl (\<lambda>reg route. fst (addRoute env1 route None None reg))
            \<lparr> arena = [], matchers = [], matcherMap = Map.empty, inserted = [] \<rparr> routes))"

definition getRoutes :: "registry \<Rightarrow> nat list" where
  "getRoutes reg = matchers reg"

definition getRecordMatcher :: "registry \<Rightarrow> RouteRecordName \<Rightarrow> nat option" where
  "getRecordMatcher reg n = matcherMap reg n"

subsection \<open>resolve\<close>

record MatcherLocationRaw =
  to_name :: "RouteRecordName option"
  to_path :: "string option"
  to_params :: "PathParams option"

text \<open>A resolved location. \<open>matched\<close> lists the records by the index of their matcher.\<close>

record MatcherLocation =
  loc_name :: "RouteRecordName option"
  loc_path :: string
  loc_params :: PathParams
  matched :: "nat list"
  loc_meta :: "string \<rightharpoonup> string"

definition paramsFromLocation :: "PathParams \<Rightarrow> string list \<Rightarrow> PathParams" where
  "paramsFromLocation params ks = foldl (\<lambda>newParams key.
      (case params key of Some v \<Rightarrow> newParams(key \<mapsto> v) | None \<Rightarrow> newParams)) Map.empty ks"

definition mergeMetaFields :: "RouteRecordMatcher list \<Rightarrow> nat list \<Rightarrow> (string \<rightharpoonup> string)" where
  "mergeMetaFields ar ms = foldl (\<lambda>m r. m ++ meta (mrecord (ar ! r))) Map.empty ms"

text \<open>The loop \<^verbatim>\<open>while (parentMatcher) { matched.unshift(...); parentMatcher = parentMatcher.parent }\<close>,
  with the same stop as \<open>isAliasRecord\<close>.\<close>

function matched_chain :: "RouteRecordMatcher list \<Rightarrow> nat option \<Rightarrow> nat list" where
  "matched_chain ar None = []"
| "matched_chain ar (Some m) =
     (case parent (ar ! m) of
        None \<Rightarrow> [m]
      | Some p \<Rightarrow> if p < m then matched_chain ar (Some p) @ [m] else [m])"
  by pat_completeness auto
termination
  by (relation "measure (\<lambda>(ar, r). case r of None \<Rightarrow> 0 | Some m \<Rightarrow> Suc m)") auto

definition located ::
  "registry \<Rightarrow> nat option \<Rightarrow> RouteRecordName option \<Rightarrow> string \<Rightarrow> PathParams \<Rightarrow> MatcherLocation" where
  "located reg matcher n p params =
     \<lparr> loc_name = n, loc_path = p, loc_params = params,
       matched = matched_chain (arena reg) matcher,
       loc_meta = mergeMetaFields (arena reg) (matched_chain (arena reg) matcher) \<rparr>"

definition resolve ::
  "registry \<Rightarrow> MatcherLocationRaw \<Rightarrow> MatcherLocation \<Rightarrow> MatcherError + MatcherLocation" where
  "resolve reg rawLocation currentLocation =
     (if truthy_name (to_name rawLocation) then
        (case matcherMap reg (the (to_name rawLocation)) of
           None \<Rightarrow> Inl MATCHER_NOT_FOUND
         | Some matcher \<Rightarrow>
             (let params =
                    paramsFromLocation (loc_params currentLocation)
                      (map key_name (filter (\<lambda>k. \<not> optional k)
                         (keys (parser (arena reg ! matcher)))))
                    ++ (case to_params rawLocation of Some ps \<Rightarrow> ps | None \<Rightarrow> Map.empty)
              in case stringify (parser (arena reg ! matcher)) params of
                   Inl e \<Rightarrow> Inl e
                 | Inr p \<Rightarrow>
                     Inr (located reg (Some matcher) (name (mrecord (arena reg ! matcher)))
                            p params)))
      else if to_path rawLocation \<noteq> None then
        (let p = the (to_path rawLocation)
         in case find (\<lambda>m. re (parser (arena reg ! m)) p) (matchers reg) of
              Some matcher \<Rightarrow>
                Inr (located reg (Some matcher) (name (mrecord (arena reg ! matcher))) p
                       (parse (parser (arena reg ! matcher)) p))
            | None \<Rightarrow> Inr (located reg None None p Map.empty))
      else
        (case (if truthy_name (loc_name currentLocation)
               then matcherMap reg (the (loc_name currentLocation))
               else find (\<lambda>m. re (parser (arena reg ! m)) (loc_path currentLocation))
                      (matchers reg)) of
           None \<Rightarrow> Inl MATCHER_NOT_FOUND
         | Some matcher \<Rightarrow>
             (let params = loc_params currentLocation
                    ++ (case to_params rawLocation of Some ps \<Rightarrow> ps | None \<Rightarrow> Map.empty)
              in case stringify (parser (arena reg ! matcher)) params of
                   Inl e \<Rightarrow> Inl e
                 | Inr p \<Rightarrow>
                     Inr (located reg (Some matcher) (name (mrecord (arena reg ! matcher)))
                            p params))))"

subsection \<open>Sequences of registry calls\<close>

text \<open>
  A call of the registry from outside: \<^verbatim>\<open>addRoute(record, parent?)\<close> (the third
  parameter is not part of the interface) or \<^verbatim>\<open>removeRoute\<close>. A parent is a matcher
  object, hence an index of the arena; an index beyond the arena denotes no object and
  such a call is not made.
\<close>

datatype registry_call = AddRoute RouteRecordRaw "nat option" | RemoveRoute matcher_ref

fun registry_step :: "matcher_env \<Rightarrow> registry \<Rightarrow> registry_call \<Rightarrow> registry" where
  "registry_step env reg (AddRoute route par) =
     (if (case par of None \<Rightarrow> True | Some p \<Rightarrow> p < length (arena reg))
      then fst (addRoute env route par None reg) else reg)"
| "registry_step env reg (RemoveRoute matcherRef) = removeRoute reg matcherRef"

definition empty_registry :: registry where
  "empty_registry = \<lparr> arena = [], matchers = [], matcherMap = Map.empty, inserted = [] \<rparr>"

definition registry_after :: "matcher_env \<Rightarrow> registry_call list \<Rightarrow> registry" where
  "registry_after env calls = foldl (registry_step env) empty_registry calls"

subsection \<open>The invariants of the registry\<close>

text \<open>The comparator orders parsers: what does not rank before ranks after or equal, and
  ranking strictly before carries over what ranks after or equal.\<close>

definition comparator_ok :: "(PathParser \<Rightarrow> PathParser \<Rightarrow> int) \<Rightarrow> bool" where
  "comparator_ok cmp =
     ((\<forall>a b. 0 \<le> cmp a b \<longrightarrow> cmp b a \<le> 0)
      \<and> (\<forall>a b c. cmp a b < 0 \<and> cmp b c \<le> 0 \<longrightarrow> cmp a c < 0))"

text \<open>\<open>a\<close> was handed to \<^verbatim>\<open>insertMatcher\<close> before \<open>b\<close>.\<close>

definition inserted_before :: "nat list \<Rightarrow> nat \<Rightarrow> nat \<Rightarrow> bool" where
  "inserted_before log a b = (0 \<le> indexOf log a \<and> indexOf log a < indexOf log b)"

text \<open>The ranked sequence: no matcher is outranked by a later one, and of two matchers
  that compare equal the earlier one was inserted first.\<close>

definition rank_rel :: "matcher_env \<Rightarrow> registry \<Rightarrow> nat \<Rightarrow> nat \<Rightarrow> bool" where
  "rank_rel env reg a b =
     (compare_matchers env (arena reg) a b \<le> 0
      \<and> (compare_matchers env (arena reg) a b = 0 \<longrightarrow> inserted_before (inserted reg) a b))"

definition ranked :: "matcher_env \<Rightarrow> registry \<Rightarrow> bool" where
  "ranked env reg = sorted_wrt (rank_rel env reg) (matchers reg)"

text \<open>The name index: an entry leads to a registered matcher that is no alias record and
  carries that name.\<close>

definition name_index_ok :: "registry \<Rightarrow> bool" where
  "name_index_ok reg =
     (\<forall>n m. matcherMap reg n = Some m \<longrightarrow>
        m \<in> set (matchers reg) \<and> name (mrecord (arena reg ! m)) = Some n
        \<and> truthy_name (Some n) \<and> \<not> isAliasRecord (arena reg) (Some m))"

definition parents_older :: "RouteRecordMatcher list \<Rightarrow> bool" where
  "parents_older ar = (\<forall>m < length ar. \<forall>p. parent (ar ! m) = Some p \<longrightarrow> p < m)"

definition owned :: "RouteRecordMatcher list \<Rightarrow> nat \<Rightarrow> nat set" where
  "owned ar m = set (children (ar ! m)) \<union> set (aliases (ar ! m))"

definition owned_valid :: "RouteRecordMatcher list \<Rightarrow> bool" where
  "owned_valid ar = (\<forall>m < length ar. \<forall>c \<in> owned ar m. c < length ar)"

definition reg_inv :: "matcher_env \<Rightarrow> registry \<Rightarrow> bool" where
  "reg_inv env reg =
     (set (inserted reg) \<subseteq> {..<length (arena reg)}
      \<and> distinct (inserted reg)
      \<and> set (matchers reg) \<subseteq> set (inserted reg)
      \<and> distinct (matchers reg)
      \<and> parents_older (arena reg)
      \<and> owned_valid (arena reg)
      \<and> ranked env reg
      \<and> name_index_ok reg)"

text \<open>
  How a registry evolves in a run of the registry's code, with \<open>b\<close> a lower bound of the
  matchers created in the run: parsers, records and parents never change, the owned
  lists only grow, only new matchers are inserted, and a matcher that the run has removed
  has none of its older owned matchers left in the sequence.
\<close>

definition evolves :: "nat \<Rightarrow> registry \<Rightarrow> registry \<Rightarrow> bool" where
  "evolves b reg reg' =
     (length (arena reg) \<le> length (arena reg')
      \<and> (\<forall>m < length (arena reg).
            parser (arena reg' ! m) = parser (arena reg ! m)
            \<and> mrecord (arena reg' ! m) = mrecord (arena reg ! m)
            \<and> parent (arena reg' ! m) = parent (arena reg ! m)
            \<and> owned (arena reg) m \<subseteq> owned (arena reg') m)
      \<and> (\<exists>new. inserted reg' = inserted reg @ new \<and> (\<forall>x \<in> set new. b \<le> x))
      \<and> (\<forall>x \<in> set (matchers reg'). x \<in> set (matchers reg) \<or> b \<le> x)
      \<and> (\<forall>x \<in> set (matchers reg). x < length (arena reg) \<and> x \<notin> set (matchers reg') \<longrightarrow>
            (\<forall>c \<in> owned (arena reg) x. c < b \<longrightarrow> c \<notin> set (matchers reg'))))"

text \<open>One pass of the matcher branch of \<^verbatim>\<open>removeRoute\<close> on a matcher that is in the
  sequence, without the recursive calls.\<close>

definition remove_step :: "registry \<Rightarrow> nat \<Rightarrow> registry" where
  "remove_step reg m =
     (if truthy_name (name (mrecord (arena reg ! m)))
      then reg\<lparr> matchers := remove1 m (matchers reg),
                matcherMap := (matcherMap reg)(the (name (mrecord (arena reg ! m))) := None) \<rparr>
      else reg\<lparr> matchers := remove1 m (matchers reg) \<rparr>)"

subsection \<open>A small parser for concrete registries\<close>

text \<open>
  A route record with a path and nothing else, and an instance of the parameters that the
  concrete examples below are computed with: a path with a colon is one dynamic segment
  and accepts every path of one non-empty segment, any other path accepts itself only; a
  static path scores 80, a dynamic one 60, and the comparator ranks the higher score
  first.
\<close>

definition no_options :: PathParserOptions_partial where
  "no_options = \<lparr> strict_given = None, end_given = None, sensitive_given = None \<rparr>"

definition plain_route :: "string \<Rightarrow> RouteRecordRaw" where
  "plain_route p = RouteRecordRaw p None NoAlias [] None None None no_options"

definition path_target :: "string \<Rightarrow> MatcherLocationRaw" where
  "path_target p = \<lparr> to_name = None, to_path = Some p, to_params = None \<rparr>"


definition example_parser :: "string \<Rightarrow> PathParserOptions \<Rightarrow> PathParser" where
  "example_parser p options =
     \<lparr> re = (\<lambda>s. if CHR '':'' \<in> set p
                  then s \<noteq> [] \<and> hd s = CHR ''/'' \<and> tl s \<noteq> [] \<and> CHR ''/'' \<notin> set (tl s)
                  else s = p),
       score = [[if CHR '':'' \<in> set p then 60 else 80]],
       keys = [],
       parse = (\<lambda>s. Map.empty),
       stringify = (\<lambda>params. Inr p) \<rparr>"

definition example_rank :: "PathParser \<Rightarrow> int" where
  "example_rank a = (case score a of [[v]] \<Rightarrow> v | _ \<Rightarrow> 0)"

definition example_env :: matcher_env where
  "example_env =
     \<lparr> globalOptions = \<lparr> strict = False, end_option = True, sensitive = False \<rparr>,
       tokensToParser = example_parser,
       comparePathParserScore = (\<lambda>a b. example_rank b - example_rank a),
       linksChild = (\<lambda>r p. (aliasOf r = None) = (aliasOf p = None)) \<rparr>"

definition start_location :: MatcherLocation where
  "start_location =
     \<lparr> loc_name = None, loc_path = ''/'', loc_params = Map.empty, matched = [],
       loc_meta = Map.empty \<rparr>"




section \<open>Navigation controller (createRouter)\<close>

subsection \<open>Locations, failures and the router's variables\<close>

text \<open>
  A route record as the controller reads it: its identity (records are compared by
  reference), its redirect option and its \<^verbatim>\<open>beforeEnter\<close> option, which is absent, one
  guard or an array of guards. Guards, redirect options and error values belong to the
  application and are named by numbers. The guard lists that mounted views register on a
  record are mutable and live in the router state below.
\<close>

datatype beforeEnter_option = NoBeforeEnter | OneGuard nat | GuardArray "nat list"

record RouteRecord =
  record_id :: nat
  record_redirect :: "nat option"
  record_beforeEnter :: beforeEnter_option

text \<open>A target as the caller gives it: a string, or an object with a path or a name (or
  neither: relative to the current location) and the options \<^verbatim>\<open>state\<close>, \<^verbatim>\<open>force\<close>
  and \<^verbatim>\<open>replace\<close>.\<close>

record RouteLocationRawObject =
  raw_path_of :: "string option"
  raw_name_of :: "string option"
  raw_params :: "(string \<times> string) list option"
  raw_query :: "(string \<times> string) list option"
  raw_hash :: "string option"
  raw_state :: "nat option"
  raw_force :: "bool option"
  raw_replace :: "bool option"

datatype RouteLocationRaw = RawString string | RawObject RouteLocationRawObject

text \<open>A resolved location. \<open>token\<close> is the identity of the object: \<^verbatim>\<open>resolve\<close> builds
  a new object on every call, and the controller compares locations by reference.
  \<open>route_path\<close> is the field \<^verbatim>\<open>path\<close>. \<open>redirectedFrom\<close> refers to a location by its
  token.\<close>

record RouteLocation =
  token :: nat
  route_path :: string
  fullPath :: string
  query :: "(string \<times> string) list"
  hash :: string
  route_params :: "(string \<times> string) list"
  route_matched :: "RouteRecord list"
  redirectedFrom :: "nat option"

datatype ErrorTypes = NAVIGATION_ABORTED | NAVIGATION_CANCELLED | NAVIGATION_DUPLICATED

text \<open>A navigation failure with its \<^verbatim>\<open>from\<close> and \<^verbatim>\<open>to\<close> (tokens).\<close>

datatype NavigationFailure = NavigationFailure ErrorTypes nat nat

text \<open>What is thrown or rejected as an error: a value of the application (by number), the
  two errors that \<^verbatim>\<open>pushWithRedirect\<close> creates, or a navigation failure that is handled
  as an unknown error.\<close>

datatype router_error =
  GuardError nat | ResolveError nat | InvalidRedirect | InfiniteRedirect
| UnknownFailure NavigationFailure

text \<open>What a promise of the controller is rejected with: a failure, the internal redirect
  signal with the target that the guard gave, or an error.\<close>

datatype rejection =
  Failure NavigationFailure | GuardRedirect RouteLocationRaw | Error router_error

text \<open>
  The variables of the closure of \<^verbatim>\<open>createRouter\<close>. \<^verbatim>\<open>pendingLocation\<close> is only ever
  compared by reference, so it is the token of the location. The next four fields are
  the callback lists. \<open>leaveGuards\<close>, \<open>updateGuards\<close>, \<open>enterCallbacks\<close> and
  \<open>instances\<close> are the mutable fields of the route records, by record identity, and
  \<open>redirectCount\<close> is the field \<^verbatim>\<open>_count\<close> that the controller writes on a location
  object, by token (0 for a field that is not set).
\<close>

record router_state =
  currentRoute :: RouteLocation
  pendingLocation :: nat
  nextToken :: nat
  beforeGuards :: "nat list"
  beforeResolveGuards :: "nat list"
  afterGuards :: "nat list"
  errorHandlers :: "nat list"
  readyHandlers :: "nat list"
  ready :: bool
  leaveGuards :: "nat \<Rightarrow> nat list"
  updateGuards :: "nat \<Rightarrow> nat list"
  enterCallbacks :: "nat \<Rightarrow> nat list"
  instances :: "nat \<Rightarrow> nat list"
  redirectCount :: "nat \<Rightarrow> nat"

text \<open>What a guard answers: nothing (allow), \<^verbatim>\<open>false\<close>, a location, an error; or it
  never settles.\<close>

datatype guard_result = Allow | Refuse | RedirectTo RouteLocationRaw | Raise nat | NeverSettles

datatype guard_type = beforeRouteLeave | beforeRouteUpdate | beforeRouteEnter

text \<open>
  The calls that a navigation makes to its collaborators, in order: a guard, the history,
  the assignment of the current route, the after hooks, the error handlers, the waiters
  of \<^verbatim>\<open>isReady\<close>, the listeners set up on the history, a warning. The scroll behavior
  is not called at once: \<open>ScrollOnNextTick\<close> is the task that \<^verbatim>\<open>handleScroll\<close> hands to
  \<^verbatim>\<open>nextTick\<close>, with the arguments that it captures. The entry stands where the task
  is scheduled; the task runs later, after the calls that follow in the same callback.
\<close>

datatype effect =
  GuardCall nat
| HistoryPush string "nat option"
| HistoryReplace string "nat option"
| SetCurrentRoute nat
| ScrollOnNextTick nat nat bool bool
| AfterEach nat nat nat "NavigationFailure option"
| ErrorHandler nat router_error
| ReadyResolve nat
| ReadyReject nat router_error
| SetupListeners
| Warn

text \<open>
  The parameters of the controller: the build flag \<^verbatim>\<open>__DEV__\<close>, \<^verbatim>\<open>isBrowser\<close>, whether
  a scroll behavior is configured, and the functions that are not among the sources:
  \<open>resolver\<close> is \<^verbatim>\<open>resolve\<close> of the router up to the identity of its result (it reads
  the current route and the matcher, and can throw), \<open>isSameRouteLocation\<close> is the
  function of that name with the configured \<^verbatim>\<open>stringifyQuery\<close>, \<open>redirectTarget\<close> gives
  the target of a redirect option for the location that is being resolved,
  \<open>componentGuards\<close> gives the guards that the components of a record define for a
  kind of guard. \<open>guardFn\<close> is the application: a guard called with \<^verbatim>\<open>to\<close> and
  \<^verbatim>\<open>from\<close> answers with a result, and it answers in the state of the router as it
  is when the guard settles: whatever other tasks did while the guard was pending, a new
  navigation included, is part of that state.
\<close>

record router_config =
  dev :: bool
  isBrowser :: bool
  hasScrollBehavior :: bool
  resolver :: "router_state \<Rightarrow> RouteLocationRaw \<Rightarrow> router_error + RouteLocation"
  isSameRouteLocation :: "RouteLocation \<Rightarrow> RouteLocation \<Rightarrow> bool"
  redirectTarget :: "nat \<Rightarrow> RouteLocation \<Rightarrow> RouteLocationRaw"
  componentGuards :: "router_state \<Rightarrow> guard_type \<Rightarrow> RouteRecord \<Rightarrow> nat list"
  guardFn :: "nat \<Rightarrow> RouteLocation \<Rightarrow> RouteLocation \<Rightarrow> router_state
                \<Rightarrow> guard_result \<times> router_state"

definition START_LOCATION_NORMALIZED :: RouteLocation where
  "START_LOCATION_NORMALIZED =
     \<lparr> token = 0, route_path = ''/'', fullPath = ''/'', query = [], hash = [],
       route_params = [],
       route_matched = [], redirectedFrom = None \<rparr>"

definition initial_router :: router_state where
  "initial_router =
     \<lparr> currentRoute = START_LOCATION_NORMALIZED, pendingLocation = 0, nextToken = 1,
       beforeGuards = [], beforeResolveGuards = [], afterGuards = [], errorHandlers = [],
       readyHandlers = [], ready = False, leaveGuards = (\<lambda>r. []), updateGuards = (\<lambda>r. []),
       enterCallbacks = (\<lambda>r. []), instances = (\<lambda>r. []), redirectCount = (\<lambda>t. 0) \<rparr>"

text \<open>\<^verbatim>\<open>resolve(to)\<close>: the location that the resolver gives, as a new object.\<close>

definition resolve_location ::
  "router_config \<Rightarrow> router_state \<Rightarrow> RouteLocationRaw
     \<Rightarrow> router_error + (RouteLocation \<times> router_state)" where
  "resolve_location cfg s to =
     (case resolver cfg s to of
        Inl e \<Rightarrow> Inl e
      | Inr l \<Rightarrow> Inr (l\<lparr> token := nextToken s, redirectedFrom := None \<rparr>,
                      s\<lparr> nextToken := Suc (nextToken s) \<rparr>))"

definition empty_raw :: RouteLocationRawObject where
  "empty_raw =
     \<lparr> raw_path_of = None, raw_name_of = None, raw_params = None, raw_query = None,
       raw_hash = None, raw_state = None, raw_force = None, raw_replace = None \<rparr>"

definition locationAsObject :: "RouteLocationRaw \<Rightarrow> RouteLocationRawObject" where
  "locationAsObject to =
     (case to of RawString s \<Rightarrow> empty_raw\<lparr> raw_path_of := Some s \<rparr> | RawObject obj \<Rightarrow> obj)"

text \<open>The options read from \<^verbatim>\<open>to\<close>; a string has none of them.\<close>

definition state_of :: "RouteLocationRaw \<Rightarrow> nat option" where
  "state_of to = (case to of RawString s \<Rightarrow> None | RawObject obj \<Rightarrow> raw_state obj)"

definition force_of :: "RouteLocationRaw \<Rightarrow> bool option" where
  "force_of to = (case to of RawString s \<Rightarrow> None | RawObject obj \<Rightarrow> raw_force obj)"

definition replace_of :: "RouteLocationRaw \<Rightarrow> bool" where
  "replace_of to = (case to of RawString s \<Rightarrow> False | RawObject obj \<Rightarrow> raw_replace obj = Some True)"

definition checkCanceledNavigation ::
  "router_state \<Rightarrow> RouteLocation \<Rightarrow> RouteLocation \<Rightarrow> NavigationFailure option" where
  "checkCanceledNavigation s to from =
     (if pendingLocation s \<noteq> token to
      then Some (NavigationFailure NAVIGATION_CANCELLED (token from) (token to))
      else None)"

subsection \<open>The guard queue\<close>

text \<open>
  Modelled from the spec: \<^verbatim>\<open>guardToPromiseFn\<close> of the module \<^verbatim>\<open>navigationGuards\<close>,
  which is not among the sources. A guard that allows resolves the promise, a guard that
  refuses rejects it with \<^verbatim>\<open>NAVIGATION_ABORTED\<close>, a location rejects it with the
  redirect signal, an error rejects it with the error.
\<close>

datatype queue_result = QResolved | QRejected rejection | QPending

definition guardToPromiseFn ::
  "router_config \<Rightarrow> nat \<Rightarrow> RouteLocation \<Rightarrow> RouteLocation \<Rightarrow> router_state
     \<Rightarrow> queue_result \<times> router_state" where
  "guardToPromiseFn cfg guard to from s =
     (case guardFn cfg guard to from s of
        (Allow, s') \<Rightarrow> (QResolved, s')
      | (Refuse, s') \<Rightarrow>
          (QRejected (Failure (NavigationFailure NAVIGATION_ABORTED (token from) (token to))), s')
      | (RedirectTo target, s') \<Rightarrow> (QRejected (GuardRedirect target), s')
      | (Raise e, s') \<Rightarrow> (QRejected (Error (GuardError e)), s')
      | (NeverSettles, s') \<Rightarrow> (QPending, s'))"

text \<open>An entry of a guard queue: a guard, or \<^verbatim>\<open>canceledNavigationCheck\<close>.\<close>

datatype queue_entry = Guard nat | CanceledNavigationCheck

text \<open>\<^verbatim>\<open>runGuardQueue\<close>: the entries run one after the other, each when the one before
  it has resolved; a rejection ends the queue.\<close>

fun runGuardQueue ::
  "router_config \<Rightarrow> RouteLocation \<Rightarrow> RouteLocation \<Rightarrow> queue_entry list \<Rightarrow> router_state
     \<Rightarrow> queue_result \<times> router_state \<times> effect list" where
  "runGuardQueue cfg to from [] s = (QResolved, s, [])"
| "runGuardQueue cfg to from (Guard g # guards) s =
     (case guardToPromiseFn cfg g to from s of
        (QResolved, s') \<Rightarrow>
          (case runGuardQueue cfg to from guards s' of
             (r, s'', effects) \<Rightarrow> (r, s'', GuardCall g # effects))
      | (r, s') \<Rightarrow> (r, s', [GuardCall g]))"
| "runGuardQueue cfg to from (CanceledNavigationCheck # guards) s =
     (case checkCanceledNavigation s to from of
        Some failure \<Rightarrow> (QRejected (Failure failure), s, [])
      | None \<Rightarrow> runGuardQueue cfg to from guards s)"

subsection \<open>navigate\<close>

definition in_matched :: "RouteRecord \<Rightarrow> RouteLocation \<Rightarrow> bool" where
  "in_matched r l = (record_id r \<in> set (map record_id (route_matched l)))"

text \<open>\<^verbatim>\<open>extractChangingRecords\<close>: the loop over the index, on the two lists side by
  side; the result is the leaving, the updating and the entering records.\<close>

fun changing_records ::
  "RouteLocation \<Rightarrow> RouteLocation \<Rightarrow> RouteRecord list \<Rightarrow> RouteRecord list
     \<Rightarrow> RouteRecord list \<times> RouteRecord list \<times> RouteRecord list" where
  "changing_records to from [] [] = ([], [], [])"
| "changing_records to from (recordFrom # fs) [] =
     (case changing_records to from fs [] of
        (leaving, updating, entering) \<Rightarrow>
          if \<not> in_matched recordFrom to then (recordFrom # leaving, updating, entering)
          else (leaving, recordFrom # updating, entering))"
| "changing_records to from [] (recordTo # ts) =
     (case changing_records to from [] ts of
        (leaving, updating, entering) \<Rightarrow>
          if \<not> in_matched recordTo from then (leaving, updating, recordTo # entering)
          else (leaving, updating, entering))"
| "changing_records to from (recordFrom # fs) (recordTo # ts) =
     (case changing_records to from fs ts of
        (leaving, updating, entering) \<Rightarrow>
          (if \<not> in_matched recordFrom to then recordFrom # leaving else leaving,
           if \<not> in_matched recordFrom to then updating else recordFrom # updating,
           if \<not> in_matched recordTo from then recordTo # entering else entering))"

definition extractChangingRecords ::
  "RouteLocation \<Rightarrow> RouteLocation
     \<Rightarrow> RouteRecord list \<times> RouteRecord list \<times> RouteRecord list" where
  "extractChangingRecords to from =
     changing_records to from (route_matched from) (route_matched to)"

text \<open>
  Modelled from the spec: \<^verbatim>\<open>extractComponentsGuards\<close> of the module
  \<^verbatim>\<open>navigationGuards\<close>, which is not among the sources. It gives the guards of one kind
  that the components of the given records define, record by record in the order of the
  list.
\<close>

definition extractComponentsGuards ::
  "router_config \<Rightarrow> router_state \<Rightarrow> RouteRecord list \<Rightarrow> guard_type \<Rightarrow> nat list" where
  "extractComponentsGuards cfg s records kind =
     concat (map (componentGuards cfg s kind) records)"

datatype phase =
  LeavePhase | BeforeEachPhase | UpdatePhase | BeforeEnterPhase | ComponentEnterPhase
| BeforeResolvePhase

text \<open>What a phase does to the state before it collects its guards: the phase of the
  component enter guards clears the enter callbacks of the matched records.\<close>

definition phase_prepare :: "phase \<Rightarrow> RouteLocation \<Rightarrow> router_state \<Rightarrow> router_state" where
  "phase_prepare p to s =
     (if p = ComponentEnterPhase
      then s\<lparr> enterCallbacks :=
             (\<lambda>r. if r \<in> set (map record_id (route_matched to)) then []
                   else enterCallbacks s r) \<rparr>
      else s)"

fun beforeEnter_guards :: "beforeEnter_option \<Rightarrow> nat list" where
  "beforeEnter_guards NoBeforeEnter = []"
| "beforeEnter_guards (OneGuard g) = [g]"
| "beforeEnter_guards (GuardArray gs) = gs"

text \<open>The guards that a phase collects, in the order in which it pushes them.\<close>

fun phase_guards ::
  "router_config \<Rightarrow> phase \<Rightarrow> RouteLocation \<Rightarrow> RouteLocation \<Rightarrow> router_state \<Rightarrow> nat list" where
  "phase_guards cfg LeavePhase to from s =
     extractComponentsGuards cfg s
       (rev (filter (\<lambda>r. \<not> in_matched r to) (route_matched from))) beforeRouteLeave
     @ concat (map (\<lambda>r. leaveGuards s (record_id r)) (fst (extractChangingRecords to from)))"
| "phase_guards cfg BeforeEachPhase to from s = beforeGuards s"
| "phase_guards cfg UpdatePhase to from s =
     extractComponentsGuards cfg s
       (filter (\<lambda>r. in_matched r from) (route_matched to)) beforeRouteUpdate
     @ concat (map (\<lambda>r. updateGuards s (record_id r))
         (fst (snd (extractChangingRecords to from))))"
| "phase_guards cfg BeforeEnterPhase to from s =
     concat (map (\<lambda>r. if \<not> in_matched r from then beforeEnter_guards (record_beforeEnter r)
                        else []) (route_matched to))"
| "phase_guards cfg ComponentEnterPhase to from s =
     extractComponentsGuards cfg s
       (filter (\<lambda>r. \<not> in_matched r from) (route_matched to)) beforeRouteEnter"
| "phase_guards cfg BeforeResolvePhase to from s = beforeResolveGuards s"

definition phase_queue ::
  "router_config \<Rightarrow> phase \<Rightarrow> RouteLocation \<Rightarrow> RouteLocation \<Rightarrow> router_state
     \<Rightarrow> queue_entry list" where
  "phase_queue cfg p to from s = map Guard (phase_guards cfg p to from s) @ [CanceledNavigationCheck]"

text \<open>The chain of \<^verbatim>\<open>then\<close> callbacks of \<^verbatim>\<open>navigate\<close>: each phase builds its queue
  when the queue of the phase before it has resolved, and runs it.\<close>

fun run_phases ::
  "router_config \<Rightarrow> RouteLocation \<Rightarrow> RouteLocation \<Rightarrow> phase list \<Rightarrow> router_state
     \<Rightarrow> queue_result \<times> router_state \<times> effect list" where
  "run_phases cfg to from [] s = (QResolved, s, [])"
| "run_phases cfg to from (p # ps) s =
     (case runGuardQueue cfg to from (phase_queue cfg p to from (phase_prepare p to s))
             (phase_prepare p to s) of
        (QResolved, s', effects) \<Rightarrow>
          (case run_phases cfg to from ps s' of
             (r, s'', effects') \<Rightarrow> (r, s'', effects @ effects'))
      | (r, s', effects) \<Rightarrow> (r, s', effects))"

definition all_phases :: "phase list" where
  "all_phases =
     [LeavePhase, BeforeEachPhase, UpdatePhase, BeforeEnterPhase, ComponentEnterPhase,
      BeforeResolvePhase]"

text \<open>What the promise of \<^verbatim>\<open>navigate\<close> settles with: it resolves (without a value, or
  with the failure of a cancelled navigation, which the last \<^verbatim>\<open>catch\<close> turns into a
  value), it is rejected, or it never settles.\<close>

datatype navigate_result =
  NavResolved "NavigationFailure option" | NavRejected rejection | NavPending

definition navigate ::
  "router_config \<Rightarrow> RouteLocation \<Rightarrow> RouteLocation \<Rightarrow> router_state
     \<Rightarrow> navigate_result \<times> router_state \<times> effect list" where
  "navigate cfg to from s =
     (case run_phases cfg to from all_phases s of
        (QResolved, s', effects) \<Rightarrow> (NavResolved None, s', effects)
      | (QRejected (Failure (NavigationFailure NAVIGATION_CANCELLED f t)), s', effects) \<Rightarrow>
          (NavResolved (Some (NavigationFailure NAVIGATION_CANCELLED f t)), s', effects)
      | (QRejected err, s', effects) \<Rightarrow> (NavRejected err, s', effects)
      | (QPending, s', effects) \<Rightarrow> (NavPending, s', effects))"

subsection \<open>Finalizing a navigation\<close>

definition triggerAfterEach ::
  "router_state \<Rightarrow> RouteLocation \<Rightarrow> RouteLocation \<Rightarrow> NavigationFailure option \<Rightarrow> effect list" where
  "triggerAfterEach s to from failure =
     map (\<lambda>guard. AfterEach guard (token to) (token from) failure) (afterGuards s)"

text \<open>
  \<^verbatim>\<open>handleScroll\<close> does nothing outside a browser or without a scroll behavior.
  Otherwise it schedules, after \<^verbatim>\<open>nextTick\<close>, the call of the scroll behavior with
  \<^verbatim>\<open>to\<close>, \<^verbatim>\<open>from\<close> and the saved scroll position, which it reads according to
  \<^verbatim>\<open>isPush\<close> and \<^verbatim>\<open>isFirstNavigation\<close>, and the scroll to the position that the
  behavior gives. No caller waits for the promise that it returns: the scheduled task,
  and the call of \<^verbatim>\<open>triggerError\<close> that catches what the task throws, come after the
  navigation has gone on and are not part of the calls listed for the navigation.
\<close>

definition handleScroll ::
  "router_config \<Rightarrow> RouteLocation \<Rightarrow> RouteLocation \<Rightarrow> bool \<Rightarrow> bool \<Rightarrow> effect list" where
  "handleScroll cfg to from isPush isFirstNavigation =
     (if \<not> isBrowser cfg \<or> \<not> hasScrollBehavior cfg then []
      else [ScrollOnNextTick (token to) (token from) isPush isFirstNavigation])"

definition markAsReady ::
  "router_state \<Rightarrow> router_error option \<Rightarrow> router_state \<times> effect list" where
  "markAsReady s err =
     (if ready s then (s, [])
      else (s\<lparr> ready := True, readyHandlers := [] \<rparr>,
            SetupListeners #
            map (\<lambda>h. case err of Some e \<Rightarrow> ReadyReject h e | None \<Rightarrow> ReadyResolve h)
              (readyHandlers s)))"

definition triggerError ::
  "router_state \<Rightarrow> router_error \<Rightarrow> router_state \<times> effect list" where
  "triggerError s error =
     (case markAsReady s (Some error) of
        (s', effects) \<Rightarrow> (s', effects @ map (\<lambda>h. ErrorHandler h error) (errorHandlers s')))"

definition clear_record :: "router_state \<Rightarrow> nat \<Rightarrow> router_state" where
  "clear_record s r =
     s\<lparr> leaveGuards := (leaveGuards s)(r := []), updateGuards := (updateGuards s)(r := []),
        instances := (instances s)(r := []), enterCallbacks := (enterCallbacks s)(r := []) \<rparr>"

definition finalizeNavigation ::
  "router_config \<Rightarrow> RouteLocation \<Rightarrow> RouteLocation \<Rightarrow> bool \<Rightarrow> bool \<Rightarrow> nat option
     \<Rightarrow> router_state \<Rightarrow> NavigationFailure option \<times> router_state \<times> effect list" where
  "finalizeNavigation cfg toLocation from isPush replace_flag data s =
     (case checkCanceledNavigation s toLocation from of
        Some error \<Rightarrow> (Some error, s, [])
      | None \<Rightarrow>
          (let s1 = foldl clear_record s
                      (map record_id (fst (extractChangingRecords toLocation from)));
               isFirstNavigation = (token from = token START_LOCATION_NORMALIZED);
               history_effects =
                 (if isPush
                  then (if replace_flag \<or> isFirstNavigation
                        then [HistoryReplace (fullPath toLocation) data]
                        else [HistoryPush (fullPath toLocation) data])
                  else []);
               s2 = s1\<lparr> currentRoute := toLocation \<rparr>
           in case markAsReady s2 None of
                (s3, ready_effects) \<Rightarrow>
                  (None, s3,
                   history_effects @ [SetCurrentRoute (token toLocation)]
                   @ handleScroll cfg toLocation from isPush isFirstNavigation
                   @ ready_effects)))"

subsection \<open>pushWithRedirect\<close>

text \<open>What a call of \<^verbatim>\<open>pushWithRedirect\<close> comes to: it throws before it returns a
  promise, or its promise resolves with a failure or with nothing, is rejected with an
  error, or never settles.\<close>

datatype outcome =
  Threw router_error | Resolved "NavigationFailure option" | Rejected router_error | Pending

text \<open>\<^verbatim>\<open>assign({ query, hash, params }, newTargetLocation, { state, force, replace })\<close>: the
  record redirect keeps the query, hash and params of the location unless the redirect
  target gives its own.\<close>

definition record_redirect_target ::
  "RouteLocation \<Rightarrow> RouteLocationRawObject \<Rightarrow> nat option \<Rightarrow> bool option \<Rightarrow> bool
     \<Rightarrow> RouteLocationRaw" where
  "record_redirect_target targetLocation newTargetLocation data force replace_flag =
     RawObject (newTargetLocation
       \<lparr> raw_query := (case raw_query newTargetLocation of
                         Some q \<Rightarrow> Some q | None \<Rightarrow> Some (query targetLocation)),
         raw_hash := (case raw_hash newTargetLocation of
                        Some h \<Rightarrow> Some h | None \<Rightarrow> Some (hash targetLocation)),
         raw_params := (case raw_params newTargetLocation of
                          Some ps \<Rightarrow> Some ps | None \<Rightarrow> Some (route_params targetLocation)),
         raw_state := data, raw_force := force, raw_replace := Some replace_flag \<rparr>)"

text \<open>\<^verbatim>\<open>assign(locationAsObject(failure.to), { state, force, replace })\<close>.\<close>

definition guard_redirect_target ::
  "RouteLocationRaw \<Rightarrow> nat option \<Rightarrow> bool option \<Rightarrow> bool \<Rightarrow> RouteLocationRaw" where
  "guard_redirect_target target data force replace_flag =
     RawObject ((locationAsObject target)
       \<lparr> raw_state := data, raw_force := force, raw_replace := Some replace_flag \<rparr>)"

definition last_redirect :: "RouteLocation \<Rightarrow> nat option" where
  "last_redirect l =
     (if route_matched l = [] then None else record_redirect (last (route_matched l)))"

text \<open>A call of \<^verbatim>\<open>pushWithRedirect\<close> inside a \<^verbatim>\<open>then\<close> callback: what it throws
  rejects the promise of the chain.\<close>

definition in_then ::
  "(outcome \<times> router_state \<times> effect list) option \<Rightarrow> effect list
     \<Rightarrow> (outcome \<times> router_state \<times> effect list) option" where
  "in_then r before =
     (case r of
        None \<Rightarrow> None
      | Some (Threw e, s, effects) \<Rightarrow> Some (Rejected e, s, before @ effects)
      | Some (out, s, effects) \<Rightarrow> Some (out, s, before @ effects))"

text \<open>
  \<^verbatim>\<open>pushWithRedirect\<close> calls itself for a record redirect and for a redirect of a guard,
  and nothing in the source bounds the calls in general; the first argument counts the
  calls that are left, and \<open>None\<close> is a chain of redirects that takes more calls than
  that. The result is the outcome, the state of the router and the calls made to the
  collaborators.
\<close>

fun pushWithRedirect ::
  "nat \<Rightarrow> router_config \<Rightarrow> RouteLocationRaw \<Rightarrow> RouteLocation option \<Rightarrow> router_state
     \<Rightarrow> (outcome \<times> router_state \<times> effect list) option" where
  "pushWithRedirect 0 cfg to redirected s = None"
| "pushWithRedirect (Suc n) cfg to redirected s =
     (case resolve_location cfg s to of
        Inl e \<Rightarrow> Some (Threw e, s, [])
      | Inr (targetLocation, s0) \<Rightarrow>
          (let s1 = s0\<lparr> pendingLocation := token targetLocation \<rparr>;
               from = currentRoute s1;
               data = state_of to;
               force = force_of to;
               replace_flag = replace_of to
           in case last_redirect targetLocation of
                Some rd \<Rightarrow>
                  (let newTargetLocation =
                         locationAsObject (redirectTarget cfg rd targetLocation)
                   in if dev cfg \<and> raw_path_of newTargetLocation = None
                         \<and> raw_name_of newTargetLocation = None
                      then Some (Rejected InvalidRedirect, s1, [Warn])
                      else pushWithRedirect n cfg
                             (record_redirect_target targetLocation newTargetLocation data
                                force replace_flag)
                             (Some (case redirected of Some r \<Rightarrow> r | None \<Rightarrow> targetLocation))
                             s1)
              | None \<Rightarrow>
                  (let toLocation = targetLocation\<lparr> redirectedFrom := map_option token redirected \<rparr>
                   in if force \<noteq> Some True \<and> isSameRouteLocation cfg from toLocation
                      then Some (Resolved (Some (NavigationFailure NAVIGATION_DUPLICATED
                                                   (token from) (token toLocation))),
                                 s1,
                                 handleScroll cfg from from True False
                                 @ triggerAfterEach s1 toLocation from
                                     (Some (NavigationFailure NAVIGATION_DUPLICATED
                                              (token from) (token toLocation))))
                      else
                        (case navigate cfg toLocation from s1 of
                           (NavPending, s2, effects) \<Rightarrow> Some (Pending, s2, effects)
                         | (NavRejected (Error e), s2, effects) \<Rightarrow>
                             (case triggerError s2 e of
                                (s3, effects') \<Rightarrow> Some (Rejected e, s3, effects @ effects'))
                         | (NavRejected (Failure (NavigationFailure NAVIGATION_DUPLICATED f t)),
                            s2, effects) \<Rightarrow>
                             (case triggerError s2
                                     (UnknownFailure (NavigationFailure NAVIGATION_DUPLICATED f t)) of
                                (s3, effects') \<Rightarrow>
                                  Some (Rejected
                                          (UnknownFailure
                                             (NavigationFailure NAVIGATION_DUPLICATED f t)),
                                        s3, effects @ effects'))
                         | (NavRejected (Failure failure), s2, effects) \<Rightarrow>
                             Some (Resolved (Some failure), s2,
                                   effects @ triggerAfterEach s2 toLocation from (Some failure))
                         | (NavResolved (Some failure), s2, effects) \<Rightarrow>
                             Some (Resolved (Some failure), s2,
                                   effects @ triggerAfterEach s2 toLocation from (Some failure))
                         | (NavResolved None, s2, effects) \<Rightarrow>
                             (case finalizeNavigation cfg toLocation from True replace_flag
                                     data s2 of
                                (failure, s3, effects') \<Rightarrow>
                                  Some (Resolved failure, s3,
                                        effects @ effects'
                                        @ triggerAfterEach s3 toLocation from failure))
                         | (NavRejected (GuardRedirect target), s2, effects) \<Rightarrow>
                             (if dev cfg
                              then
                                (case resolve_location cfg s2 target of
                                   Inl e \<Rightarrow> Some (Rejected e, s2, effects)
                                 | Inr (l, s3) \<Rightarrow>
                                     if isSameRouteLocation cfg l toLocation
                                        \<and> redirected \<noteq> None
                                     then
                                       (let r = token (the redirected);
                                            s4 = s3\<lparr> redirectCount :=
                                                   (redirectCount s3)(r := Suc (redirectCount s3 r)) \<rparr>
                                        in if redirectCount s4 r > 10
                                           then Some (Rejected InfiniteRedirect, s4, effects @ [Warn])
                                           else in_then
                                                  (pushWithRedirect n cfg
                                                     (guard_redirect_target target data force
                                                        replace_flag)
                                                     (Some (the redirected)) s4)
                                                  effects)
                                     else in_then
                                            (pushWithRedirect n cfg
                                               (guard_redirect_target target data force
                                                  replace_flag)
                                               (Some (case redirected of
                                                        Some r \<Rightarrow> r | None \<Rightarrow> toLocation))
                                               s3)
                                            effects)
                              else in_then
                                     (pushWithRedirect n cfg
                                        (guard_redirect_target target data force replace_flag)
                                        (Some (case redirected of
                                                 Some r \<Rightarrow> r | None \<Rightarrow> toLocation))
                                        s2)
                                     effects)))))"

text \<open>The effects that persist a navigation: a call of \<^verbatim>\<open>push\<close> or \<^verbatim>\<open>replace\<close> of the
  history, or the assignment of the current route.\<close>

fun persists :: "effect \<Rightarrow> bool" where
  "persists (HistoryPush p d) = True"
| "persists (HistoryReplace p d) = True"
| "persists (SetCurrentRoute t) = True"
| "persists e = False"

fun is_guard_call :: "effect \<Rightarrow> bool" where
  "is_guard_call (GuardCall g) = True"
| "is_guard_call e = False"

subsection \<open>A small router for concrete navigations\<close>

text \<open>
  Modelled from the spec: \<^verbatim>\<open>isSameRouteLocation\<close> of the module \<^verbatim>\<open>location\<close>, which is
  not among the sources. The spec asks for the same query and the same hash; the source
  of \<^verbatim>\<open>pushWithRedirect\<close> adds that a duplicate is never the first navigation, since
  the initial location cannot be navigated to. The function compares what the locations
  match, not their paths: two locations are the same when they match records, equally
  many, with the same last record, and have the same params, the same query and the same
  hash. The initial location matches no record and is the same as no location. Equal
  lists stand for queries with equal strings under \<^verbatim>\<open>stringifyQuery\<close>; records that
  are aliases of one another are not told apart from other records here.
\<close>

definition same_route_location :: "RouteLocation \<Rightarrow> RouteLocation \<Rightarrow> bool" where
  "same_route_location a b =
     (route_matched a \<noteq> [] \<and> length (route_matched a) = length (route_matched b)
      \<and> record_id (last (route_matched a)) = record_id (last (route_matched b))
      \<and> route_params a = route_params b \<and> query a = query b \<and> hash a = hash b)"

text \<open>
  A resolver that takes the path of the target for the path and the full path and
  matches no record, and a router with two before guards. In
  \<open>racing_config\<close>, while guard 1 is pending on the way to \<^verbatim>\<open>/a\<close> another navigation
  is started: its location is a new object, which it stores as the pending location.
  Guard 1 allows. Guard 2 answers with \<open>second\<close> on the way to \<^verbatim>\<open>/a\<close> and allows
  otherwise.
\<close>

definition path_of_raw :: "RouteLocationRaw \<Rightarrow> string" where
  "path_of_raw to =
     (case raw_path_of (locationAsObject to) of Some p \<Rightarrow> p | None \<Rightarrow> ''/'')"

definition plain_location :: "string \<Rightarrow> RouteRecord list \<Rightarrow> RouteLocation" where
  "plain_location p records =
     \<lparr> token = 0, route_path = p, fullPath = p, query = [], hash = [], route_params = [],
       route_matched = records, redirectedFrom = None \<rparr>"

definition racing_config :: "guard_result \<Rightarrow> router_config" where
  "racing_config second =
     \<lparr> dev = False, isBrowser = False, hasScrollBehavior = False,
       resolver = (\<lambda>s to. Inr (plain_location (path_of_raw to) [])),
       isSameRouteLocation = same_route_location,
       redirectTarget = (\<lambda>rd l. RawString ''/''),
       componentGuards = (\<lambda>s kind r. []),
       guardFn = (\<lambda>g to from s.
          if fullPath to \<noteq> ''/a'' then (Allow, s)
          else if g = 1
          then (Allow, s\<lparr> pendingLocation := nextToken s, nextToken := Suc (nextToken s) \<rparr>)
          else (second, s)) \<rparr>"

definition two_guards_router :: router_state where
  "two_guards_router = initial_router\<lparr> beforeGuards := [1, 2], afterGuards := [7] \<rparr>"

text \<open>A router whose records redirect: a path shorter than twelve characters matches a
  record that redirects to the path with one more character.\<close>

definition redirecting_config :: router_config where
  "redirecting_config =
     \<lparr> dev = True, isBrowser = False, hasScrollBehavior = False,
       resolver = (\<lambda>s to. Inr (plain_location (path_of_raw to)
          (if length (path_of_raw to) < 12
           then [\<lparr> record_id = 0, record_redirect = Some 0, record_beforeEnter = NoBeforeEnter \<rparr>]
           else []))),
       isSameRouteLocation = same_route_location,
       redirectTarget = (\<lambda>rd l. RawString (fullPath l @ ''x'')),
       componentGuards = (\<lambda>s kind r. []),
       guardFn = (\<lambda>g to from s. (Allow, s)) \<rparr>"

text \<open>A record without a redirect and without guards of its own.\<close>

definition page_record :: RouteRecord where
  "page_record = \<lparr> record_id = 0, record_redirect = None, record_beforeEnter = NoBeforeEnter \<rparr>"

text \<open>A router in a development build in which every path matches the record, with a
  guard that always redirects to \<^verbatim>\<open>/login\<close>.\<close>

definition looping_config :: router_config where
  "looping_config =
     \<lparr> dev = True, isBrowser = False, hasScrollBehavior = False,
       resolver = (\<lambda>s to. Inr (plain_location (path_of_raw to) [page_record])),
       isSameRouteLocation = same_route_location,
       redirectTarget = (\<lambda>rd l. RawString ''/''),
       componentGuards = (\<lambda>s kind r. []),
       guardFn = (\<lambda>g to from s. (RedirectTo (RawString ''/login''), s)) \<rparr>"

text \<open>A location with a parent record 10 and a child record 11, each with one leave guard
  registered, and a location without records.\<close>

definition nested_location :: RouteLocation where
  "nested_location =
     (plain_location ''/parent/child''
        [\<lparr> record_id = 10, record_redirect = None, record_beforeEnter = NoBeforeEnter \<rparr>,
         \<lparr> record_id = 11, record_redirect = None, record_beforeEnter = NoBeforeEnter \<rparr>])
       \<lparr> token := 1 \<rparr>"

definition leaving_router :: router_state where
  "leaving_router =
     initial_router\<lparr> currentRoute := nested_location, pendingLocation := 2, nextToken := 3,
       leaveGuards := (\<lambda>r. if r = 10 then [1] else if r = 11 then [2] else []) \<rparr>"

text \<open>The navigation to \<^verbatim>\<open>/a\<close> under way in the router with two guards: its location is
  object 1 and is the pending location.\<close>

definition location_a :: RouteLocation where
  "location_a = (plain_location ''/a'' [])\<lparr> token := 1 \<rparr>"

definition navigating_a :: router_state where
  "navigating_a = two_guards_router\<lparr> pendingLocation := 1, nextToken := 2 \<rparr>"

definition other_location :: RouteLocation where
  "other_location = (plain_location ''/other'' [])\<lparr> token := 2 \<rparr>"

text \<open>The router with the redirecting guard as its only before guard.\<close>

definition looping_router :: router_state where
  "looping_router = initial_router\<lparr> beforeGuards := [1] \<rparr>"





section \<open>Properties of the in-memory history\<close>

lemma position_ok_setLocation:
  assumes "position_ok h"
  shows "position_ok (setLocation h to)"
  using assms
  by (auto simp: position_ok_def setLocation_def Let_def splice_rest_def splice_start_def)

lemma queue_setLocation:
  assumes "position_ok h"
  shows "queue (setLocation h to) = take (nat (position h) + 1) (queue h) @ [to]"
  using assms
  by (auto simp: position_ok_def setLocation_def Let_def splice_rest_def splice_start_def
      nat_add_distrib)

lemma position_ok_replace:
  assumes "position_ok h"
  shows "position_ok (replace h to)"
  using assms
  by (auto simp: position_ok_def replace_def setLocation_def Let_def splice_rest_def
      splice_one_def splice_start_def)

lemma position_ok_go:
  assumes "position_ok h"
  shows "position_ok (fst (go h d t))"
  using assms by (auto simp: position_ok_def go_def Let_def)

lemma position_ok_step:
  assumes "position_ok h"
  shows "position_ok (history_step h c)"
proof (cases c)
  case (Push to)
  then show ?thesis using assms by (simp add: push_def position_ok_setLocation)
next
  case (Replace to)
  then show ?thesis using assms by (simp add: position_ok_replace)
next
  case (Go d t)
  then show ?thesis using assms by (simp add: position_ok_go)
next
  case (Listen n)
  then show ?thesis using assms by (simp add: position_ok_def listen_def)
next
  case (Unlisten n)
  then show ?thesis using assms by (simp add: position_ok_def unlisten_def)
next
  case Destroy
  then show ?thesis using assms by (simp add: position_ok_def destroy_def)
qed

lemma position_ok_foldl:
  assumes "position_ok h"
  shows "position_ok (foldl history_step h calls)"
  using assms by (induction calls arbitrary: h) (simp_all add: position_ok_step)

lemma position_ok_history_after: "position_ok (history_after calls)"
  unfolding history_after_def
  by (rule position_ok_foldl) (simp add: position_ok_def createMemoryHistory_def)

text \<open>
  C10. After any sequence of calls of the in-memory history, the position is within the
  queue, the reported location is the queue entry at the position, \<^verbatim>\<open>go\<close> clamps its
  target into the queue for every integer delta, and \<^verbatim>\<open>push\<close> keeps the entries up to
  the position, drops the forward entries and appends the new one.
\<close>

theorem memory_history_position_invariant:
  "0 \<le> position (history_after calls)
   \<and> position (history_after calls) < int (length (queue (history_after calls)))
   \<and> location (history_after calls)
       = Some (queue (history_after calls) ! nat (position (history_after calls)))
   \<and> position (fst (go (history_after calls) d t))
       = max 0 (min (position (history_after calls) + d)
                    (int (length (queue (history_after calls))) - 1))
   \<and> queue (push (history_after calls) to)
       = take (nat (position (history_after calls)) + 1) (queue (history_after calls)) @ [to]
   \<and> position (push (history_after calls) to) = position (history_after calls) + 1"
proof -
  have ok: "position_ok (history_after calls)"
    by (rule position_ok_history_after)
  have q: "queue (push (history_after calls) to)
       = take (nat (position (history_after calls)) + 1) (queue (history_after calls)) @ [to]"
    unfolding push_def by (rule queue_setLocation [OF ok])
  have p: "position (push (history_after calls) to) = position (history_after calls) + 1"
    by (simp add: push_def setLocation_def Let_def)
  have g: "position (fst (go (history_after calls) d t))
       = max 0 (min (position (history_after calls) + d)
                    (int (length (queue (history_after calls))) - 1))"
    by (simp add: go_def Let_def)
  from ok q p g show ?thesis
    by (simp add: position_ok_def location_def)
qed

theorem memory_history_position_invariant_witness:
  "queue (push (history_after [Push ''/a'', Push ''/b'', Push ''/c'', Go (-7) True]) ''/d'')
     = [START, ''/d'']
   \<and> position (fst (go (history_after [Push ''/a'', Push ''/b'', Go (-1) True]) 9 False)) = 2
   \<and> location (history_after [Push ''/a'', Replace ''/b'', Go 5 True]) = Some ''/b''"
  using memory_history_position_invariant
    [of "[Push ''/a'', Push ''/b'', Push ''/c'', Go (-7) True]" 0 True "''/d''"]
    memory_history_position_invariant [of "[Push ''/a'', Push ''/b'', Go (-1) True]" 9 False "''/d''"]
    memory_history_position_invariant [of "[Push ''/a'', Replace ''/b'', Go 5 True]" 0 True "''/d''"]
  by (simp add: history_after_def createMemoryHistory_def push_def replace_def setLocation_def
      go_def Let_def splice_rest_def splice_one_def splice_start_def location_def START_def)

section \<open>Properties of the matcher registry\<close>

subsection \<open>Lists\<close>

lemma indexOf_ge: "- 1 \<le> indexOf xs x"
  by (induction xs) (auto simp: Let_def)

lemma indexOf_mem: "(0 \<le> indexOf xs x) = (x \<in> set xs)"
  by (induction xs) (auto simp: Let_def)

lemma indexOf_less: "indexOf xs x < int (length xs)"
  by (induction xs) (auto simp: Let_def)

lemma indexOf_notin: "x \<notin> set xs \<Longrightarrow> indexOf xs x = - 1"
  using indexOf_ge [of xs x] indexOf_mem [of xs x] by linarith

lemma indexOf_append_mem: "x \<in> set xs \<Longrightarrow> indexOf (xs @ ys) x = indexOf xs x"
  by (induction xs) (auto simp: Let_def indexOf_mem [symmetric])

lemma indexOf_append_new:
  "x \<notin> set xs \<Longrightarrow> indexOf (xs @ x # ys) x = int (length xs)"
  by (induction xs) (auto simp: Let_def)

lemma indexOf_append_notin:
  "x \<notin> set xs \<Longrightarrow> x \<in> set ys \<Longrightarrow> int (length xs) \<le> indexOf (xs @ ys) x"
  by (induction xs) (auto simp: Let_def indexOf_mem)

lemma splice_one_indexOf:
  "x \<in> set xs \<Longrightarrow> splice_one xs (indexOf xs x) = remove1 x xs"
proof (induction xs)
  case Nil
  then show ?case by simp
next
  case (Cons y ys)
  show ?case
  proof (cases "y = x")
    case True
    then show ?thesis by (simp add: splice_one_def splice_start_def)
  next
    case False
    with Cons.prems have mem: "x \<in> set ys" by simp
    then have nonneg: "0 \<le> indexOf ys x" by (simp add: indexOf_mem)
    have less: "indexOf ys x < int (length ys)" by (rule indexOf_less)
    from Cons.IH [OF mem] nonneg less False show ?thesis
      by (simp add: splice_one_def splice_start_def Let_def nat_add_distrib)
  qed
qed

lemma splice_one_subset: "set (splice_one xs i) \<subseteq> set xs"
  by (auto simp: splice_one_def dest: in_set_takeD in_set_dropD)

lemma sorted_wrt_remove_nth:
  assumes "sorted_wrt P xs"
  shows "sorted_wrt P (take k xs @ drop (Suc k) xs)"
proof -
  from assms have "sorted_wrt P (take k xs @ drop k xs)" by simp
  then have cross: "\<forall>x\<in>set (take k xs). \<forall>y\<in>set (drop k xs). P x y"
    by (simp only: sorted_wrt_append) simp
  have sub: "set (drop (Suc k) xs) \<subseteq> set (drop k xs)"
    by (rule set_drop_subset_set_drop) simp
  have "sorted_wrt P (take k xs)" "sorted_wrt P (drop (Suc k) xs)"
    using assms by simp_all
  with cross sub show ?thesis
    by (auto simp: sorted_wrt_append)
qed

lemma splice_one_sorted_wrt: "sorted_wrt P xs \<Longrightarrow> sorted_wrt P (splice_one xs i)"
  unfolding splice_one_def by (rule sorted_wrt_remove_nth)

lemma distinct_remove_nth:
  assumes "distinct xs"
  shows "distinct (take k xs @ drop (Suc k) xs)"
proof -
  from assms have "distinct (take k xs @ drop k xs)" by simp
  then have cross: "set (take k xs) \<inter> set (drop k xs) = {}"
    by (simp only: distinct_append)
  have sub: "set (drop (Suc k) xs) \<subseteq> set (drop k xs)"
    by (rule set_drop_subset_set_drop) simp
  have "distinct (take k xs)" "distinct (drop (Suc k) xs)"
    using assms by simp_all
  with cross sub show ?thesis
    by (auto simp: distinct_append)
qed

lemma splice_one_distinct: "distinct xs \<Longrightarrow> distinct (splice_one xs i)"
  unfolding splice_one_def by (rule distinct_remove_nth)


subsection \<open>Frames\<close>

lemma isAliasRecord_cong:
  assumes "\<forall>k \<le> m. mrecord (ar' ! k) = mrecord (ar ! k) \<and> parent (ar' ! k) = parent (ar ! k)"
  shows "isAliasRecord ar' (Some m) = isAliasRecord ar (Some m)"
  using assms
proof (induction m rule: less_induct)
  case (less m)
  have same: "mrecord (ar' ! m) = mrecord (ar ! m)" "parent (ar' ! m) = parent (ar ! m)"
    using less.prems by simp_all
  show ?case
  proof (cases "parent (ar ! m)")
    case None
    with same show ?thesis by simp
  next
    case (Some p)
    show ?thesis
    proof (cases "p < m")
      case True
      then have "isAliasRecord ar' (Some p) = isAliasRecord ar (Some p)"
        using less.IH [of p] less.prems by simp
      with same Some True show ?thesis by simp
    next
      case False
      with same Some show ?thesis by simp
    qed
  qed
qed

lemma matched_chain_cong:
  assumes "\<forall>k \<le> m. parent (ar' ! k) = parent (ar ! k)"
  shows "matched_chain ar' (Some m) = matched_chain ar (Some m)"
  using assms
proof (induction m rule: less_induct)
  case (less m)
  have same: "parent (ar' ! m) = parent (ar ! m)"
    using less.prems by simp
  show ?case
  proof (cases "parent (ar ! m)")
    case None
    with same show ?thesis by simp
  next
    case (Some p)
    show ?thesis
    proof (cases "p < m")
      case True
      then have "matched_chain ar' (Some p) = matched_chain ar (Some p)"
        using less.IH [of p] less.prems by simp
      with same Some True show ?thesis by simp
    next
      case False
      with same Some show ?thesis by simp
    qed
  qed
qed

lemma evolves_refl: "evolves b reg reg"
  by (simp add: evolves_def)

lemma evolves_weaken: "evolves b reg reg' \<Longrightarrow> b' \<le> b \<Longrightarrow> evolves b' reg reg'"
  unfolding evolves_def by (meson dual_order.trans order_less_le_trans)

lemma evolves_trans:
  assumes "evolves b reg reg'" and "evolves b reg' reg''"
  shows "evolves b reg reg''"
proof -
  note a = assms(1) [unfolded evolves_def] and c = assms(2) [unfolded evolves_def]
  have len: "length (arena reg) \<le> length (arena reg'')"
    using a c by linarith
  have fields: "\<forall>m < length (arena reg).
            parser (arena reg'' ! m) = parser (arena reg ! m)
            \<and> mrecord (arena reg'' ! m) = mrecord (arena reg ! m)
            \<and> parent (arena reg'' ! m) = parent (arena reg ! m)
            \<and> owned (arena reg) m \<subseteq> owned (arena reg'') m"
  proof (intro allI impI)
    fix m assume m: "m < length (arena reg)"
    then have m': "m < length (arena reg')" using a by linarith
    from a m c m' show "parser (arena reg'' ! m) = parser (arena reg ! m)
            \<and> mrecord (arena reg'' ! m) = mrecord (arena reg ! m)
            \<and> parent (arena reg'' ! m) = parent (arena reg ! m)
            \<and> owned (arena reg) m \<subseteq> owned (arena reg'') m"
      by (metis subset_trans)
  qed
  from a obtain new1 where n1: "inserted reg' = inserted reg @ new1" "\<forall>x \<in> set new1. b \<le> x"
    by blast
  from c obtain new2 where n2: "inserted reg'' = inserted reg' @ new2" "\<forall>x \<in> set new2. b \<le> x"
    by blast
  have ins: "\<exists>new. inserted reg'' = inserted reg @ new \<and> (\<forall>x \<in> set new. b \<le> x)"
    using n1 n2 by (intro exI [of _ "new1 @ new2"]) auto
  have ms: "\<forall>x \<in> set (matchers reg''). x \<in> set (matchers reg) \<or> b \<le> x"
    using a c by blast
  have clo: "\<forall>x \<in> set (matchers reg). x < length (arena reg) \<and> x \<notin> set (matchers reg'') \<longrightarrow>
            (\<forall>c \<in> owned (arena reg) x. c < b \<longrightarrow> c \<notin> set (matchers reg''))"
  proof (intro ballI impI)
    fix x y
    assume x: "x \<in> set (matchers reg)" "x < length (arena reg) \<and> x \<notin> set (matchers reg'')"
      and y: "y \<in> owned (arena reg) x" "y < b"
    show "y \<notin> set (matchers reg'')"
    proof (cases "x \<in> set (matchers reg')")
      case True
      have "x < length (arena reg')" using x a by linarith
      moreover have "y \<in> owned (arena reg') x" using a x y by blast
      ultimately show ?thesis using c True x y by blast
    next
      case False
      then have "y \<notin> set (matchers reg')" using a x y by blast
      then show ?thesis using c y by (meson not_le)
    qed
  qed
  from len fields ins ms clo show ?thesis
    unfolding evolves_def by blast
qed

lemma rank_rel_cong:
  assumes "inserted reg' = inserted reg"
    and "parser (arena reg' ! a) = parser (arena reg ! a)"
    and "parser (arena reg' ! b) = parser (arena reg ! b)"
  shows "rank_rel env reg' a b = rank_rel env reg a b"
  using assms by (simp add: rank_rel_def compare_matchers_def)

text \<open>A change of the arena that keeps what is immutable keeps the invariant.\<close>

lemma reg_inv_arena_frame:
  assumes inv: "reg_inv env reg"
    and same: "matchers reg' = matchers reg" "inserted reg' = inserted reg"
      "matcherMap reg' = matcherMap reg"
    and len: "length (arena reg) \<le> length (arena reg')"
    and fields: "\<forall>m < length (arena reg).
            parser (arena reg' ! m) = parser (arena reg ! m)
            \<and> mrecord (arena reg' ! m) = mrecord (arena reg ! m)
            \<and> parent (arena reg' ! m) = parent (arena reg ! m)"
    and par: "parents_older (arena reg')"
    and own: "owned_valid (arena reg')"
  shows "reg_inv env reg'"
proof -
  note i = inv [unfolded reg_inv_def]
  have valid: "m < length (arena reg)" if "m \<in> set (matchers reg)" for m
    using i that by auto
  have "sorted_wrt (rank_rel env reg') (matchers reg)"
  proof (rule sorted_wrt_mono_rel [of _ "rank_rel env reg"])
    fix a b assume "a \<in> set (matchers reg)" "b \<in> set (matchers reg)" "rank_rel env reg a b"
    then show "rank_rel env reg' a b"
      using rank_rel_cong [of reg' reg a b env] same fields valid by simp
  next
    show "sorted_wrt (rank_rel env reg) (matchers reg)"
      using i by (simp add: ranked_def)
  qed
  then have r: "ranked env reg'" by (simp add: ranked_def same)
  have n: "name_index_ok reg'"
    unfolding name_index_ok_def
  proof (intro allI impI)
    fix n m assume "matcherMap reg' n = Some m"
    then have e: "matcherMap reg n = Some m" by (simp add: same)
    with i have f: "m \<in> set (matchers reg)" "name (mrecord (arena reg ! m)) = Some n"
      "truthy_name (Some n)" "\<not> isAliasRecord (arena reg) (Some m)"
      by (simp_all add: name_index_ok_def)
    have m: "m < length (arena reg)" using f valid by simp
    have "isAliasRecord (arena reg') (Some m) = isAliasRecord (arena reg) (Some m)"
      by (rule isAliasRecord_cong) (use fields m in auto)
    with f m fields same
    show "m \<in> set (matchers reg') \<and> name (mrecord (arena reg' ! m)) = Some n
        \<and> truthy_name (Some n) \<and> \<not> isAliasRecord (arena reg') (Some m)"
      by simp
  qed
  from i r n same len par own show ?thesis
    unfolding reg_inv_def by auto
qed

subsection \<open>Creating a matcher\<close>

lemma create_fields:
  "matchers (createRouteRecordMatcher env reg r par opts) = matchers reg"
  "inserted (createRouteRecordMatcher env reg r par opts) = inserted reg"
  "matcherMap (createRouteRecordMatcher env reg r par opts) = matcherMap reg"
  "length (arena (createRouteRecordMatcher env reg r par opts)) = Suc (length (arena reg))"
  by (simp_all add: createRouteRecordMatcher_def Let_def split: option.split)

lemma create_old:
  assumes "m < length (arena reg)"
  shows "parser (arena (createRouteRecordMatcher env reg r par opts) ! m) = parser (arena reg ! m)"
    and "mrecord (arena (createRouteRecordMatcher env reg r par opts) ! m) = mrecord (arena reg ! m)"
    and "parent (arena (createRouteRecordMatcher env reg r par opts) ! m) = parent (arena reg ! m)"
    and "owned (arena reg) m \<subseteq> owned (arena (createRouteRecordMatcher env reg r par opts)) m"
  using assms
  by (auto simp: createRouteRecordMatcher_def Let_def nth_append nth_list_update owned_def
      split: option.split)

lemma create_new:
  assumes "\<forall>p. par = Some p \<longrightarrow> p < length (arena reg)"
  shows "parser (arena (createRouteRecordMatcher env reg r par opts) ! length (arena reg))
     = tokensToParser env (path r) opts"
    and "mrecord (arena (createRouteRecordMatcher env reg r par opts) ! length (arena reg)) = r"
    and "parent (arena (createRouteRecordMatcher env reg r par opts) ! length (arena reg)) = par"
  using assms
  by (auto simp: createRouteRecordMatcher_def Let_def nth_append nth_list_update
      split: option.split)

lemma create_inv:
  assumes inv: "reg_inv env reg"
    and par: "\<forall>p. par = Some p \<longrightarrow> p < length (arena reg)"
  shows "reg_inv env (createRouteRecordMatcher env reg r par opts)"
proof (rule reg_inv_arena_frame [OF inv])
  show "parents_older (arena (createRouteRecordMatcher env reg r par opts))"
    unfolding parents_older_def
  proof (intro allI impI)
    fix m p
    assume m: "m < length (arena (createRouteRecordMatcher env reg r par opts))"
      and p: "parent (arena (createRouteRecordMatcher env reg r par opts) ! m) = Some p"
    show "p < m"
    proof (cases "m < length (arena reg)")
      case True
      with p have "parent (arena reg ! m) = Some p" by (simp add: create_old)
      with inv True show ?thesis by (simp add: reg_inv_def parents_older_def)
    next
      case False
      with m have "m = length (arena reg)" by (simp add: create_fields)
      with p par show ?thesis by (simp add: create_new)
    qed
  qed
next
  show "owned_valid (arena (createRouteRecordMatcher env reg r par opts))"
    unfolding owned_valid_def
  proof (intro allI impI ballI)
    fix m c
    assume m: "m < length (arena (createRouteRecordMatcher env reg r par opts))"
      and c: "c \<in> owned (arena (createRouteRecordMatcher env reg r par opts)) m"
    have old: "owned_valid (arena reg)" using inv by (simp add: reg_inv_def)
    show "c < length (arena (createRouteRecordMatcher env reg r par opts))"
    proof (cases "m < length (arena reg)")
      case True
      from c have "c \<in> owned (arena reg) m \<or> c = length (arena reg)"
        using True
        by (auto simp: createRouteRecordMatcher_def Let_def nth_append nth_list_update
            owned_def split: option.splits if_splits)
      with old True show ?thesis
        by (auto simp: owned_valid_def create_fields less_Suc_eq)
    next
      case False
      with m have "m = length (arena reg)" by (simp add: create_fields)
      with c par have False
        by (auto simp: createRouteRecordMatcher_def Let_def nth_append nth_list_update
            owned_def split: option.splits if_splits)
      then show ?thesis ..
    qed
  qed
qed (simp_all add: create_fields create_old)

lemma create_evolves: "evolves b reg (createRouteRecordMatcher env reg r par opts)"
  unfolding evolves_def by (simp add: create_fields create_old)

subsection \<open>Registering an alias\<close>

lemma push_alias_fields:
  "matchers (push_alias reg original m) = matchers reg"
  "inserted (push_alias reg original m) = inserted reg"
  "matcherMap (push_alias reg original m) = matcherMap reg"
  "length (arena (push_alias reg original m)) = length (arena reg)"
  by (simp_all add: push_alias_def)

lemma push_alias_nth:
  "arena (push_alias reg original m) ! k =
     (if k = original \<and> original < length (arena reg)
      then (arena reg ! k)\<lparr> aliases := aliases (arena reg ! k) @ [m] \<rparr>
      else arena reg ! k)"
  by (cases "original < length (arena reg)")
    (simp_all add: push_alias_def nth_list_update list_update_beyond)

lemma push_alias_old:
  "parser (arena (push_alias reg original m) ! k) = parser (arena reg ! k)"
  "mrecord (arena (push_alias reg original m) ! k) = mrecord (arena reg ! k)"
  "parent (arena (push_alias reg original m) ! k) = parent (arena reg ! k)"
  "owned (arena reg) k \<subseteq> owned (arena (push_alias reg original m)) k"
  by (auto simp: push_alias_nth owned_def)

lemma push_alias_inv:
  assumes "reg_inv env reg" and "m < length (arena reg)"
  shows "reg_inv env (push_alias reg original m)"
proof (rule reg_inv_arena_frame [OF assms(1)])
  show "parents_older (arena (push_alias reg original m))"
    using assms by (simp add: reg_inv_def parents_older_def push_alias_old push_alias_fields)
next
  have "owned_valid (arena reg)" using assms by (simp add: reg_inv_def)
  then show "owned_valid (arena (push_alias reg original m))"
    using assms(2)
    by (auto simp: owned_valid_def owned_def push_alias_nth push_alias_fields split: if_splits)
qed (simp_all add: push_alias_fields push_alias_old)

lemma push_alias_evolves: "evolves b reg (push_alias reg original m)"
  unfolding evolves_def by (simp add: push_alias_fields push_alias_old)

subsection \<open>Inserting a matcher\<close>

lemma set_insert_ranked: "set (insert_ranked cmp k xs) = insert k (set xs)"
  by (induction xs) auto

lemma distinct_insert_ranked:
  "distinct xs \<Longrightarrow> k \<notin> set xs \<Longrightarrow> distinct (insert_ranked cmp k xs)"
  by (induction xs) (auto simp: set_insert_ranked)

lemma insert_ranked_sorted:
  assumes "sorted_wrt R xs"
    and "\<And>x. x \<in> set xs \<Longrightarrow> 0 \<le> cmp k x \<Longrightarrow> R x k"
    and "\<And>x y. x \<in> set xs \<Longrightarrow> cmp k x < 0 \<Longrightarrow> y = x \<or> (y \<in> set xs \<and> R x y) \<Longrightarrow> R k y"
  shows "sorted_wrt R (insert_ranked cmp k xs)"
  using assms
proof (induction xs)
  case Nil
  then show ?case by simp
next
  case (Cons x xs)
  show ?case
  proof (cases "0 \<le> cmp k x")
    case True
    have "sorted_wrt R (insert_ranked cmp k xs)"
      using Cons.prems by (intro Cons.IH) auto
    moreover have "R x k" using Cons.prems(2) True by simp
    ultimately show ?thesis using True Cons.prems(1) by (auto simp: set_insert_ranked)
  next
    case False
    then have neg: "cmp k x < 0" by simp
    have "R k y" if "y \<in> set (x # xs)" for y
      using Cons.prems(3) [of x y] Cons.prems(1) neg that by auto
    with False Cons.prems(1) show ?thesis by auto
  qed
qed

lemma insertMatcher_fields:
  "arena (insertMatcher env reg k) = arena reg"
  "inserted (insertMatcher env reg k) = inserted reg @ [k]"
  "matchers (insertMatcher env reg k)
     = insert_ranked (compare_matchers env (arena reg)) k (matchers reg)"
  by (simp_all add: insertMatcher_def Let_def)

lemma insertMatcher_map:
  "matcherMap (insertMatcher env reg k) =
     (if truthy_name (name (mrecord (arena reg ! k))) \<and> \<not> isAliasRecord (arena reg) (Some k)
      then (matcherMap reg)(the (name (mrecord (arena reg ! k))) \<mapsto> k)
      else matcherMap reg)"
  by (simp add: insertMatcher_def Let_def)

lemma insertMatcher_ranked:
  assumes cmp: "comparator_ok (comparePathParserScore env)"
    and inv: "reg_inv env reg"
    and fresh: "k \<notin> set (inserted reg)"
  shows "ranked env (insertMatcher env reg k)"
proof -
  let ?reg' = "insertMatcher env reg k"
  let ?c = "compare_matchers env (arena reg)"
  note i = inv [unfolded reg_inv_def]
  have logged: "x \<in> set (inserted reg)" if "x \<in> set (matchers reg)" for x
    using i that by auto
  have A: "\<And>a b. 0 \<le> ?c a b \<Longrightarrow> ?c b a \<le> 0"
    and T: "\<And>a b c. ?c a b < 0 \<Longrightarrow> ?c b c \<le> 0 \<Longrightarrow> ?c a c < 0"
    using cmp unfolding comparator_ok_def compare_matchers_def by blast+
  have rel: "rank_rel env ?reg' a b =
      (?c a b \<le> 0 \<and> (?c a b = 0 \<longrightarrow> inserted_before (inserted reg @ [k]) a b))" for a b
    by (simp add: rank_rel_def insertMatcher_fields)
  have old: "sorted_wrt (rank_rel env ?reg') (matchers reg)"
  proof (rule sorted_wrt_mono_rel [of _ "rank_rel env reg"])
    fix a b assume "a \<in> set (matchers reg)" "b \<in> set (matchers reg)" "rank_rel env reg a b"
    then show "rank_rel env ?reg' a b"
      using logged unfolding rel
      by (simp add: rank_rel_def inserted_before_def indexOf_append_mem)
  next
    show "sorted_wrt (rank_rel env reg) (matchers reg)"
      using i by (simp add: ranked_def)
  qed
  have "sorted_wrt (rank_rel env ?reg') (insert_ranked ?c k (matchers reg))"
  proof (rule insert_ranked_sorted [OF old])
    fix x assume x: "x \<in> set (matchers reg)" "0 \<le> ?c k x"
    have "indexOf (inserted reg @ [k]) x = indexOf (inserted reg) x"
      using logged x by (simp add: indexOf_append_mem)
    moreover have "indexOf (inserted reg) x < int (length (inserted reg))"
      by (rule indexOf_less)
    moreover have "0 \<le> indexOf (inserted reg) x"
      using logged x by (simp add: indexOf_mem)
    moreover have "indexOf (inserted reg @ [k]) k = int (length (inserted reg))"
      using fresh by (rule indexOf_append_new)
    ultimately have "inserted_before (inserted reg @ [k]) x k"
      by (simp add: inserted_before_def)
    with A [OF x(2)] show "rank_rel env ?reg' x k" by (simp add: rel)
  next
    fix x y
    assume x: "x \<in> set (matchers reg)" "?c k x < 0"
      and y: "y = x \<or> (y \<in> set (matchers reg) \<and> rank_rel env ?reg' x y)"
    have "?c k y < 0"
    proof (cases "y = x")
      case True
      with x show ?thesis by simp
    next
      case False
      with y have "?c x y \<le> 0" by (simp add: rel)
      with T [OF x(2)] show ?thesis by simp
    qed
    then show "rank_rel env ?reg' k y" by (simp add: rel)
  qed
  then show ?thesis by (simp add: ranked_def insertMatcher_fields)
qed

lemma insertMatcher_inv:
  assumes cmp: "comparator_ok (comparePathParserScore env)"
    and inv: "reg_inv env reg"
    and k: "k < length (arena reg)"
    and fresh: "k \<notin> set (inserted reg)"
  shows "reg_inv env (insertMatcher env reg k)"
proof -
  let ?reg' = "insertMatcher env reg k"
  note i = inv [unfolded reg_inv_def]
  have notin: "k \<notin> set (matchers reg)" using i fresh by auto
  have n: "name_index_ok ?reg'"
    unfolding name_index_ok_def
  proof (intro allI impI)
    fix n m assume e: "matcherMap ?reg' n = Some m"
    show "m \<in> set (matchers ?reg') \<and> name (mrecord (arena ?reg' ! m)) = Some n
        \<and> truthy_name (Some n) \<and> \<not> isAliasRecord (arena ?reg') (Some m)"
    proof (cases "matcherMap reg n = Some m")
      case True
      with i show ?thesis
        by (simp add: name_index_ok_def insertMatcher_fields set_insert_ranked)
    next
      case False
      with e have t: "truthy_name (name (mrecord (arena reg ! k)))"
        "\<not> isAliasRecord (arena reg) (Some k)"
        and nm: "n = the (name (mrecord (arena reg ! k)))" "m = k"
        by (auto simp: insertMatcher_map simp del: isAliasRecord.simps split: if_splits)
      from t(1) nm(1) have nk: "name (mrecord (arena reg ! k)) = Some n"
        by (cases "name (mrecord (arena reg ! k))") simp_all
      from t(1) have "truthy_name (Some n)" by (simp only: nk)
      with t(2) nk nm(2) show ?thesis
        by (simp add: insertMatcher_fields set_insert_ranked del: isAliasRecord.simps)
    qed
  qed
  have "ranked env ?reg'" by (rule insertMatcher_ranked [OF cmp inv fresh])
  with i n k fresh notin show ?thesis
    unfolding reg_inv_def
    by (auto simp: insertMatcher_fields set_insert_ranked distinct_insert_ranked)
qed

lemma insertMatcher_evolves: "evolves k reg (insertMatcher env reg k)"
  unfolding evolves_def by (auto simp: insertMatcher_fields set_insert_ranked)

subsection \<open>Removing matchers\<close>

lemma remove_at_indexOf:
  "m \<in> set (matchers reg) \<Longrightarrow> remove_at reg m (indexOf (matchers reg) m) = remove_step reg m"
  by (simp add: remove_at_def remove_step_def Let_def splice_one_indexOf)

lemma removeMatchers_Cons:
  "removeMatchers reg (m # rest) =
     (if m \<in> set (matchers reg)
      then removeMatchers (remove_step reg m)
             (children (arena reg ! m) @ aliases (arena reg ! m) @ rest)
      else removeMatchers reg rest)"
proof (cases "m \<in> set (matchers reg)")
  case True
  then have "- 1 < indexOf (matchers reg) m"
    using indexOf_mem [of "matchers reg" m] by simp
  with True show ?thesis
    by (simp add: Let_def remove_at_indexOf)
next
  case False
  then show ?thesis by (simp add: indexOf_notin)
qed

declare removeMatchers.simps(2) [simp del]

lemma removeMatchers_cases [case_names Nil Found Skip]:
  assumes "\<And>reg. P reg []"
    and "\<And>reg m rest. m \<in> set (matchers reg) \<Longrightarrow>
           P (remove_step reg m) (children (arena reg ! m) @ aliases (arena reg ! m) @ rest)
           \<Longrightarrow> P reg (m # rest)"
    and "\<And>reg m rest. m \<notin> set (matchers reg) \<Longrightarrow> P reg rest \<Longrightarrow> P reg (m # rest)"
  shows "P reg work"
proof (induction reg work rule: removeMatchers.induct)
  case (1 reg)
  show ?case by (rule assms(1))
next
  case (2 reg m rest)
  show ?case
  proof (cases "m \<in> set (matchers reg)")
    case True
    then have pos: "- 1 < indexOf (matchers reg) m"
      using indexOf_mem [of "matchers reg" m] by simp
    have "P (remove_step reg m) (children (arena reg ! m) @ aliases (arena reg ! m) @ rest)"
      using "2.IH"(1) [OF refl pos] by (simp add: remove_at_indexOf True)
    with True show ?thesis by (rule assms(2))
  next
    case False
    then have "\<not> - 1 < indexOf (matchers reg) m" by (simp add: indexOf_notin)
    from False "2.IH"(2) [OF refl this] show ?thesis by (rule assms(3))
  qed
qed

lemma remove_step_fields:
  "arena (remove_step reg m) = arena reg"
  "inserted (remove_step reg m) = inserted reg"
  "matchers (remove_step reg m) = remove1 m (matchers reg)"
  by (simp_all add: remove_step_def)

lemma remove_step_map:
  "matcherMap (remove_step reg m) n = Some k \<Longrightarrow> matcherMap reg n = Some k"
  by (auto simp: remove_step_def split: if_splits)

lemma removeMatchers_fields:
  "arena (removeMatchers reg work) = arena reg \<and> inserted (removeMatchers reg work) = inserted reg"
  by (induction reg work rule: removeMatchers_cases)
    (simp_all add: removeMatchers_Cons remove_step_fields)

lemma removeMatchers_subset: "set (matchers (removeMatchers reg work)) \<subseteq> set (matchers reg)"
proof (induction reg work rule: removeMatchers_cases)
  case (Found reg m rest)
  then show ?case
    using set_remove1_subset [of m "matchers reg"]
    by (auto simp: removeMatchers_Cons remove_step_fields)
qed (simp_all add: removeMatchers_Cons)

lemma removeMatchers_distinct: "distinct (matchers reg) \<Longrightarrow> distinct (matchers (removeMatchers reg work))"
  by (induction reg work rule: removeMatchers_cases)
    (simp_all add: removeMatchers_Cons remove_step_fields)

lemma sorted_wrt_remove1: "sorted_wrt P xs \<Longrightarrow> sorted_wrt P (remove1 x xs)"
  by (induction xs) (auto dest: notin_set_remove1)

lemma removeMatchers_sorted_wrt:
  "sorted_wrt P (matchers reg) \<Longrightarrow> sorted_wrt P (matchers (removeMatchers reg work))"
  by (induction reg work rule: removeMatchers_cases)
    (simp_all add: removeMatchers_Cons remove_step_fields sorted_wrt_remove1)

lemma removeMatchers_map:
  "matcherMap (removeMatchers reg work) n = Some k \<Longrightarrow> matcherMap reg n = Some k"
  by (induction reg work rule: removeMatchers_cases)
    (auto simp: removeMatchers_Cons dest: remove_step_map)

lemma remove_step_name_index:
  assumes "name_index_ok reg"
  shows "name_index_ok (remove_step reg m)"
  unfolding name_index_ok_def
proof (intro allI impI)
  fix n k assume e: "matcherMap (remove_step reg m) n = Some k"
  then have old: "matcherMap reg n = Some k" by (rule remove_step_map)
  with assms have f: "k \<in> set (matchers reg)" "name (mrecord (arena reg ! k)) = Some n"
    "truthy_name (Some n)" "\<not> isAliasRecord (arena reg) (Some k)"
    by (simp_all add: name_index_ok_def)
  have "k \<noteq> m"
  proof
    assume "k = m"
    with f have "matcherMap (remove_step reg m) n = None"
      by (simp add: remove_step_def)
    with e show False by simp
  qed
  with f show "k \<in> set (matchers (remove_step reg m))
      \<and> name (mrecord (arena (remove_step reg m) ! k)) = Some n
      \<and> truthy_name (Some n) \<and> \<not> isAliasRecord (arena (remove_step reg m)) (Some k)"
    by (simp add: remove_step_fields del: isAliasRecord.simps)
qed

lemma removeMatchers_name_index: "name_index_ok reg \<Longrightarrow> name_index_ok (removeMatchers reg work)"
  by (induction reg work rule: removeMatchers_cases)
    (simp_all add: removeMatchers_Cons remove_step_name_index)

text \<open>The cascade: every matcher of the work list is gone, and whatever has been removed
  has none of its owned matchers left.\<close>

lemma removeMatchers_closure:
  assumes "distinct (matchers reg)"
  shows "(\<forall>w \<in> set work. w \<notin> set (matchers (removeMatchers reg work)))
       \<and> (\<forall>x \<in> set (matchers reg). x \<notin> set (matchers (removeMatchers reg work)) \<longrightarrow>
            (\<forall>c \<in> owned (arena reg) x. c \<notin> set (matchers (removeMatchers reg work))))"
  using assms
proof (induction reg work rule: removeMatchers_cases)
  case (Nil reg)
  show ?case by simp
next
  case (Found reg m rest)
  let ?work = "children (arena reg ! m) @ aliases (arena reg ! m) @ rest"
  let ?res = "removeMatchers (remove_step reg m) ?work"
  have d: "distinct (matchers (remove_step reg m))"
    using Found.prems by (simp add: remove_step_fields)
  note IH = Found.IH [OF d]
  have sub: "set (matchers ?res) \<subseteq> set (remove1 m (matchers reg))"
    using removeMatchers_subset [of "remove_step reg m" ?work] by (simp add: remove_step_fields)
  have gone: "m \<notin> set (matchers ?res)"
    using sub Found.prems by auto
  have "c \<notin> set (matchers ?res)"
    if "x \<in> set (matchers reg)" "x \<notin> set (matchers ?res)" "c \<in> owned (arena reg) x" for x c
  proof (cases "x = m")
    case True
    with that have "c \<in> set ?work" by (auto simp: owned_def)
    with IH show ?thesis by blast
  next
    case False
    with that have "x \<in> set (matchers (remove_step reg m))"
      by (simp add: remove_step_fields)
    with IH that show ?thesis by (simp add: remove_step_fields)
  qed
  with IH gone show ?case
    by (auto simp: removeMatchers_Cons Found.hyps)
next
  case (Skip reg m rest)
  have "m \<notin> set (matchers (removeMatchers reg rest))"
    using removeMatchers_subset [of reg rest] Skip.hyps by blast
  with Skip.IH [OF Skip.prems] Skip.hyps show ?case
    by (simp add: removeMatchers_Cons)
qed

lemma removeMatchers_inv:
  assumes "reg_inv env reg"
  shows "reg_inv env (removeMatchers reg work)"
proof -
  note i = assms [unfolded reg_inv_def]
  have same: "arena (removeMatchers reg work) = arena reg" "inserted (removeMatchers reg work) = inserted reg"
    using removeMatchers_fields [of reg work] by simp_all
  have rel: "rank_rel env (removeMatchers reg work) = rank_rel env reg"
    by (intro ext) (simp add: rank_rel_def same)
  have "ranked env (removeMatchers reg work)"
    using i removeMatchers_sorted_wrt [of "rank_rel env reg" reg work]
    by (simp add: ranked_def rel)
  moreover have "name_index_ok (removeMatchers reg work)"
    using i by (simp add: removeMatchers_name_index)
  moreover have "distinct (matchers (removeMatchers reg work))"
    using i by (simp add: removeMatchers_distinct)
  ultimately show ?thesis
    using i removeMatchers_subset [of reg work]
    unfolding reg_inv_def by (auto simp: same)
qed

lemma removeMatchers_evolves:
  assumes "distinct (matchers reg)"
  shows "evolves b reg (removeMatchers reg work)"
  using removeMatchers_closure [OF assms, of work] removeMatchers_subset [of reg work]
    removeMatchers_fields [of reg work]
  unfolding evolves_def by auto

subsection \<open>removeRoute\<close>

text \<open>On a registry that satisfies the invariant, the name branch is the matcher branch
  on the matcher of that name.\<close>

lemma removeRoute_ByName:
  assumes "name_index_ok reg" and "matcherMap reg n = Some m"
  shows "removeRoute reg (ByName n) = removeMatchers reg [m]"
proof -
  from assms have f: "m \<in> set (matchers reg)" "name (mrecord (arena reg ! m)) = Some n"
    "truthy_name (Some n)"
    by (simp_all add: name_index_ok_def)
  have "reg\<lparr> matcherMap := (matcherMap reg)(n := None),
            matchers := splice_one (matchers reg) (indexOf (matchers reg) m) \<rparr>
        = remove_step reg m"
    using f by (simp add: remove_step_def splice_one_indexOf)
  with assms(2) f show ?thesis
    by (simp add: removeMatchers_Cons)
qed

lemma removeRoute_eq:
  assumes "name_index_ok reg"
  shows "\<exists>work. removeRoute reg matcherRef = removeMatchers reg work"
proof (cases matcherRef)
  case (ByName n)
  show ?thesis
  proof (cases "matcherMap reg n")
    case None
    with ByName have "removeRoute reg matcherRef = removeMatchers reg []" by simp
    then show ?thesis by blast
  next
    case (Some m)
    with ByName removeRoute_ByName [OF assms Some] show ?thesis by blast
  qed
next
  case (ByMatcher m)
  then have "removeRoute reg matcherRef = removeMatchers reg [m]" by simp
  then show ?thesis by blast
qed

lemma removeRoute_inv:
  assumes "reg_inv env reg"
  shows "reg_inv env (removeRoute reg matcherRef)"
proof -
  from assms have "name_index_ok reg" by (simp add: reg_inv_def)
  from removeRoute_eq [OF this] obtain work
    where "removeRoute reg matcherRef = removeMatchers reg work" by blast
  with removeMatchers_inv [OF assms] show ?thesis by simp
qed

lemma removeRoute_evolves:
  assumes "reg_inv env reg"
  shows "evolves b reg (removeRoute reg matcherRef)"
proof -
  from assms have n: "name_index_ok reg" and d: "distinct (matchers reg)"
    by (simp_all add: reg_inv_def)
  from removeRoute_eq [OF n] obtain work
    where "removeRoute reg matcherRef = removeMatchers reg work" by blast
  with removeMatchers_evolves [OF d] show ?thesis by simp
qed

subsection \<open>addRoute keeps the invariant\<close>

lemma evolves_length: "evolves b reg reg' \<Longrightarrow> length (arena reg) \<le> length (arena reg')"
  by (simp add: evolves_def)

lemma removeRoute_fields:
  assumes "name_index_ok reg"
  shows "arena (removeRoute reg matcherRef) = arena reg"
    and "inserted (removeRoute reg matcherRef) = inserted reg"
proof -
  from removeRoute_eq [OF assms] obtain work
    where "removeRoute reg matcherRef = removeMatchers reg work" by blast
  then show "arena (removeRoute reg matcherRef) = arena reg"
    and "inserted (removeRoute reg matcherRef) = inserted reg"
    using removeMatchers_fields [of reg work] by simp_all
qed

lemma link_matcher_ok:
  assumes "reg_inv env reg1" and "k < length (arena reg1)"
  shows "reg_inv env (link_matcher reg1 r root orig om k)"
    and "evolves b reg1 (link_matcher reg1 r root orig om k)"
    and "length (arena (link_matcher reg1 r root orig om k)) = length (arena reg1)"
    and "inserted (link_matcher reg1 r root orig om k) = inserted reg1"
proof -
  let ?om = "case om of None \<Rightarrow> k | Some x \<Rightarrow> x"
  let ?reg1a = "if ?om \<noteq> k then push_alias reg1 ?om k else reg1"
  have a: "reg_inv env ?reg1a" "evolves b reg1 ?reg1a"
    "length (arena ?reg1a) = length (arena reg1)" "inserted ?reg1a = inserted reg1"
    using assms
    by (simp_all add: push_alias_inv push_alias_evolves push_alias_fields evolves_refl)
  then have n: "name_index_ok ?reg1a" by (simp add: reg_inv_def)
  let ?reg1b = "removeRoute ?reg1a (ByName (the (raw_name r)))"
  have b1: "reg_inv env ?reg1b" by (rule removeRoute_inv [OF a(1)])
  have b2: "evolves b reg1 ?reg1b"
    by (rule evolves_trans [OF a(2) removeRoute_evolves [OF a(1)]])
  have b3: "length (arena ?reg1b) = length (arena reg1)"
    using a(3) by (simp only: removeRoute_fields [OF n])
  have b4: "inserted ?reg1b = inserted reg1"
    using a(4) by (simp only: removeRoute_fields [OF n])
  note b = b1 b2 b3 b4
  show "reg_inv env (link_matcher reg1 r root orig om k)"
    using assms a(1) b(1)
    by (simp add: link_matcher_def Let_def push_alias_inv
        del: isAliasRecord.simps removeRoute.simps split: option.split)
  show "evolves b reg1 (link_matcher reg1 r root orig om k)"
    using a(2) b(2)
    by (simp add: link_matcher_def Let_def push_alias_evolves
        del: isAliasRecord.simps removeRoute.simps split: option.split)
  show "length (arena (link_matcher reg1 r root orig om k)) = length (arena reg1)"
    using a(3) b(3)
    by (simp add: link_matcher_def Let_def push_alias_fields
        del: isAliasRecord.simps removeRoute.simps split: option.split)
  show "inserted (link_matcher reg1 r root orig om k) = inserted reg1"
    using a(4) b(4)
    by (simp add: link_matcher_def Let_def push_alias_fields
        del: isAliasRecord.simps removeRoute.simps split: option.split)
qed

lemma addRoute_step_ok:
  shows "comparator_ok (comparePathParserScore env) \<Longrightarrow>
           reg_inv env reg \<Longrightarrow> (\<forall>p. par = Some p \<longrightarrow> p < length (arena reg)) \<Longrightarrow>
           reg_inv env (fst (addRoute env r par orig reg))
           \<and> evolves (length (arena reg)) reg (fst (addRoute env r par orig reg))"
    and "comparator_ok (comparePathParserScore env) \<Longrightarrow>
           reg_inv env reg \<Longrightarrow> (\<forall>p. par = Some p \<longrightarrow> p < length (arena reg)) \<Longrightarrow>
           reg_inv env (fst (addRecords env r par root opts recs orig om reg))
           \<and> evolves (length (arena reg)) reg
               (fst (addRecords env r par root opts recs orig om reg))"
    and "comparator_ok (comparePathParserScore env) \<Longrightarrow>
           reg_inv env reg \<Longrightarrow> matcher < length (arena reg) \<Longrightarrow>
           reg_inv env (addChildren env cs i matcher orig reg)
           \<and> evolves (length (arena reg)) reg (addChildren env cs i matcher orig reg)"
proof (induction env r par orig reg and env r par root opts recs orig om reg
    and env cs i matcher orig reg rule: addRoute_addRecords_addChildren.induct)
  case (1 env r par orig reg)
  then show ?case by simp
next
  case (2 env r par root opts orig om reg)
  then show ?case by (simp add: evolves_refl)
next
  case (3 env r par root opts nr rest orig om reg)
  define k where "k = length (arena reg)"
  define reg1 where
    "reg1 = createRouteRecordMatcher env reg (nested_record reg par nr) par opts"
  define reg2 where "reg2 = link_matcher reg1 r root orig om k"
  define reg3 where "reg3 = addChildren env (raw_children r) 0 k orig reg2"
  define reg4 where "reg4 = insertMatcher env reg3 k"
  let ?orig' = "Some (case orig of None \<Rightarrow> k | Some x \<Rightarrow> x)"
  let ?om' = "next_originalMatcher orig om k"
  let ?final = "fst (addRecords env r par root opts rest ?orig' ?om' reg4)"
  note cmp = "3.prems"(1) and inv = "3.prems"(2) and par = "3.prems"(3)
  have i1: "reg_inv env reg1" and e1: "evolves k reg reg1"
    and l1: "length (arena reg1) = Suc k" and s1: "inserted reg1 = inserted reg"
    using inv par unfolding reg1_def k_def
    by (simp_all add: create_inv create_evolves create_fields)
  have i2: "reg_inv env reg2" and e2: "evolves k reg1 reg2"
    and l2: "length (arena reg2) = Suc k" and s2: "inserted reg2 = inserted reg"
    using link_matcher_ok(1) [OF i1, of k] link_matcher_ok(2) [OF i1, where b = k and k = k]
      link_matcher_ok(3) [OF i1, of k] link_matcher_ok(4) [OF i1, of k] l1 s1
    unfolding reg2_def by simp_all
  have "reg_inv env reg3 \<and> evolves (length (arena reg2)) reg2 reg3"
    unfolding reg3_def
    using "3.IH"(1) [OF k_def reg1_def reg2_def cmp i2] l2 by simp
  then have i3: "reg_inv env reg3" and e3': "evolves (Suc k) reg2 reg3"
    by (simp_all add: l2)
  have e3: "evolves k reg2 reg3" using e3' by (rule evolves_weaken) simp
  have l3: "k < length (arena reg3)" using evolves_length [OF e3] l2 by simp
  have fresh: "k \<notin> set (inserted reg3)"
  proof -
    from e3' obtain new where n: "inserted reg3 = inserted reg2 @ new" "\<forall>x \<in> set new. Suc k \<le> x"
      unfolding evolves_def by blast
    have "k \<notin> set (inserted reg)"
      using inv unfolding reg_inv_def k_def by auto
    with n s2 show ?thesis by auto
  qed
  have i4: "reg_inv env reg4" unfolding reg4_def
    by (rule insertMatcher_inv [OF cmp i3 l3 fresh])
  have e4: "evolves k reg3 reg4" unfolding reg4_def by (rule insertMatcher_evolves)
  have l4: "k < length (arena reg4)" using l3 by (simp add: reg4_def insertMatcher_fields)
  have par4: "\<forall>p. par = Some p \<longrightarrow> p < length (arena reg4)"
    using par l4 unfolding k_def by auto
  have "reg_inv env ?final \<and> evolves (length (arena reg4)) reg4 ?final"
    using "3.IH"(2) [OF k_def reg1_def reg2_def reg3_def reg4_def cmp i4 par4] by simp
  then have i5: "reg_inv env ?final" and e5: "evolves k reg4 ?final"
    using l4 by (auto intro: evolves_weaken)
  have "evolves k reg ?final"
    using e1 e2 e3 e4 e5 by (blast intro: evolves_trans)
  moreover have "fst (addRecords env r par root opts (nr # rest) orig om reg) = ?final"
    by (cases orig) (simp_all add: Let_def k_def reg1_def reg2_def reg3_def reg4_def)
  ultimately show ?case using i5 by (simp add: k_def)
next
  case (4 env i matcher orig reg)
  then show ?case by (simp add: evolves_refl)
next
  case (5 env child rest i matcher orig reg)
  let ?reg1 = "fst (addRoute env child (Some matcher) (child_original reg orig i) reg)"
  have a: "reg_inv env ?reg1" "evolves (length (arena reg)) reg ?reg1"
    using "5.IH"(1) "5.prems" by simp_all
  have len: "length (arena reg) \<le> length (arena ?reg1)" using a(2) by (rule evolves_length)
  then have "matcher < length (arena ?reg1)" using "5.prems"(3) by simp
  with "5.IH"(2) a(1) "5.prems"(1)
  have b: "reg_inv env (addChildren env rest (Suc i) matcher orig ?reg1)"
    "evolves (length (arena ?reg1)) ?reg1 (addChildren env rest (Suc i) matcher orig ?reg1)"
    by simp_all
  have "evolves (length (arena reg)) ?reg1 (addChildren env rest (Suc i) matcher orig ?reg1)"
    using b(2) len by (rule evolves_weaken)
  with a(2) have "evolves (length (arena reg)) reg
      (addChildren env rest (Suc i) matcher orig ?reg1)"
    by (rule evolves_trans)
  with b(1) show ?case by simp
qed

subsection \<open>Every reachable registry satisfies the invariant\<close>

declare addRoute.simps [simp del]

lemma reg_inv_empty: "reg_inv env empty_registry"
  by (simp add: reg_inv_def empty_registry_def parents_older_def owned_valid_def ranked_def
      name_index_ok_def)

lemma registry_step_inv:
  assumes "comparator_ok (comparePathParserScore env)" and "reg_inv env reg"
  shows "reg_inv env (registry_step env reg call)"
proof (cases call)
  case (AddRoute route par)
  show ?thesis
  proof (cases "case par of None \<Rightarrow> True | Some p \<Rightarrow> p < length (arena reg)")
    case True
    then have "\<forall>p. par = Some p \<longrightarrow> p < length (arena reg)" by auto
    from addRoute_step_ok(1) [OF assms this, of route None] AddRoute True
    show ?thesis by simp
  next
    case False
    with AddRoute assms show ?thesis by simp
  qed
next
  case (RemoveRoute matcherRef)
  with removeRoute_inv [OF assms(2)] show ?thesis by simp
qed

lemma registry_foldl_inv:
  assumes "comparator_ok (comparePathParserScore env)" and "reg_inv env reg"
  shows "reg_inv env (foldl (registry_step env) reg calls)"
  using assms(2)
  by (induction calls arbitrary: reg) (simp_all add: registry_step_inv [OF assms(1)])

lemma registry_after_inv:
  assumes "comparator_ok (comparePathParserScore env)"
  shows "reg_inv env (registry_after env calls)"
  unfolding registry_after_def by (rule registry_foldl_inv [OF assms reg_inv_empty])

lemma reg_inv_parents_older:
  assumes "comparator_ok (comparePathParserScore env)"
    and "m < length (arena (registry_after env calls))"
    and "parent (arena (registry_after env calls) ! m) = Some p"
  shows "p < m"
  using registry_after_inv [OF assms(1), of calls] assms(2,3)
  by (simp add: reg_inv_def parents_older_def)

lemma createRouterMatcher_inv:
  assumes "comparator_ok (comparePathParserScore env)"
  shows "reg_inv (fst (createRouterMatcher env routes options))
           (snd (createRouterMatcher env routes options))"
proof -
  let ?env = "env\<lparr> globalOptions :=
      mergeOptions \<lparr> strict = False, end_option = True, sensitive = False \<rparr> options \<rparr>"
  have c: "comparator_ok (comparePathParserScore ?env)" using assms by simp
  have "reg_inv ?env (foldl (\<lambda>reg route. fst (addRoute ?env route None None reg)) reg routes)"
    if "reg_inv ?env reg" for reg
    using that
  proof (induction routes arbitrary: reg)
    case Nil
    then show ?case by simp
  next
    case (Cons r rs)
    have "reg_inv ?env (fst (addRoute ?env r None None reg))"
      using addRoute_step_ok(1) [OF c Cons.prems, of None r None] by simp
    from Cons.IH [OF this] show ?case by simp
  qed
  from this [OF reg_inv_empty] show ?thesis
    by (simp add: createRouterMatcher_def Let_def empty_registry_def)
qed

subsection \<open>The static route wins over the dynamic one\<close>

lemma static_before_dynamic:
  assumes "comparePathParserScore env
             (tokensToParser env ''/fixed'' (mergeOptions (globalOptions env) no_options))
             (tokensToParser env ''/:a'' (mergeOptions (globalOptions env) no_options)) < 0"
    and "0 \<le> comparePathParserScore env
             (tokensToParser env ''/:a'' (mergeOptions (globalOptions env) no_options))
             (tokensToParser env ''/fixed'' (mergeOptions (globalOptions env) no_options))"
    and "re (tokensToParser env ''/fixed'' (mergeOptions (globalOptions env) no_options))
            ''/fixed''"
    and "calls = [AddRoute (plain_route ''/fixed'') None, AddRoute (plain_route ''/:a'') None]
         \<or> calls = [AddRoute (plain_route ''/:a'') None, AddRoute (plain_route ''/fixed'') None]"
  shows "\<exists>loc. resolve (registry_after env calls) (path_target ''/fixed'') cur = Inr loc
           \<and> map (\<lambda>m. path (mrecord (arena (registry_after env calls) ! m))) (matched loc)
               = [''/fixed'']"
  using assms(4)
proof
  assume "calls = [AddRoute (plain_route ''/fixed'') None, AddRoute (plain_route ''/:a'') None]"
  with assms(1,2,3) show ?thesis
    by (simp add: registry_after_def empty_registry_def Let_def plain_route_def addRoute.simps
        normalized_records_def path_target_def
        normalizeRouteRecord_def nested_record_def createRouteRecordMatcher_def link_matcher_def
        next_originalMatcher_def insertMatcher_def compare_matchers_def
        resolve_def located_def nth_append)
next
  assume "calls = [AddRoute (plain_route ''/:a'') None, AddRoute (plain_route ''/fixed'') None]"
  with assms(1,2,3) show ?thesis
    by (simp add: registry_after_def empty_registry_def Let_def plain_route_def addRoute.simps
        normalized_records_def path_target_def
        normalizeRouteRecord_def nested_record_def createRouteRecordMatcher_def link_matcher_def
        next_originalMatcher_def insertMatcher_def compare_matchers_def
        resolve_def located_def nth_append)
qed

lemma createRouterMatcher_registry_after:
  "snd (createRouterMatcher env routes options)
     = registry_after (fst (createRouterMatcher env routes options))
         (map (\<lambda>route. AddRoute route None) routes)"
proof -
  have "foldl (\<lambda>reg route. fst (addRoute e route None None reg)) reg routes
        = foldl (registry_step e) reg (map (\<lambda>route. AddRoute route None) routes)" for e reg
    by (induction routes arbitrary: reg) simp_all
  then show ?thesis
    by (simp add: createRouterMatcher_def Let_def registry_after_def empty_registry_def)
qed

lemma example_comparator_ok: "comparator_ok (comparePathParserScore example_env)"
  by (auto simp: comparator_ok_def example_env_def)

text \<open>
  C8. With a comparator that orders the parsers, after every sequence of
  \<^verbatim>\<open>addRoute\<close> and \<^verbatim>\<open>removeRoute\<close> calls no matcher of the ranked sequence is
  outranked by a later one, two matchers that compare equal stand in the order in which
  \<^verbatim>\<open>insertMatcher\<close> received them, and every entry of the name index leads to a matcher
  of the sequence that carries the name and is no alias record. When the parser of
  \<^verbatim>\<open>/fixed\<close> accepts \<^verbatim>\<open>/fixed\<close> and outranks the parser of \<^verbatim>\<open>/:a\<close>, the path
  \<^verbatim>\<open>/fixed\<close> resolves to the static route in both orders of registration.
\<close>

theorem registry_ranked_and_indexed:
  assumes "comparator_ok (comparePathParserScore env)"
  shows "sorted_wrt (\<lambda>a b. compare_matchers env (arena (registry_after env calls)) a b \<le> 0)
           (matchers (registry_after env calls))
       \<and> (\<forall>i j. i < j \<and> j < length (matchers (registry_after env calls))
              \<and> compare_matchers env (arena (registry_after env calls))
                    (matchers (registry_after env calls) ! i)
                    (matchers (registry_after env calls) ! j) = 0
            \<longrightarrow> inserted_before (inserted (registry_after env calls))
                  (matchers (registry_after env calls) ! i)
                  (matchers (registry_after env calls) ! j))
       \<and> (\<forall>n m. matcherMap (registry_after env calls) n = Some m \<longrightarrow>
              m \<in> set (matchers (registry_after env calls))
              \<and> name (mrecord (arena (registry_after env calls) ! m)) = Some n
              \<and> \<not> isAliasRecord (arena (registry_after env calls)) (Some m))
       \<and> (comparePathParserScore env
             (tokensToParser env ''/fixed'' (mergeOptions (globalOptions env) no_options))
             (tokensToParser env ''/:a'' (mergeOptions (globalOptions env) no_options)) < 0
          \<and> 0 \<le> comparePathParserScore env
             (tokensToParser env ''/:a'' (mergeOptions (globalOptions env) no_options))
             (tokensToParser env ''/fixed'' (mergeOptions (globalOptions env) no_options))
          \<and> re (tokensToParser env ''/fixed'' (mergeOptions (globalOptions env) no_options))
               ''/fixed''
          \<and> (order = [AddRoute (plain_route ''/fixed'') None, AddRoute (plain_route ''/:a'') None]
             \<or> order = [AddRoute (plain_route ''/:a'') None, AddRoute (plain_route ''/fixed'') None])
          \<longrightarrow> (\<exists>loc. resolve (registry_after env order) (path_target ''/fixed'') cur = Inr loc
                \<and> map (\<lambda>m. path (mrecord (arena (registry_after env order) ! m))) (matched loc)
                    = [''/fixed'']))"
proof -
  let ?R = "registry_after env calls"
  have inv: "reg_inv env ?R" by (rule registry_after_inv [OF assms])
  then have s: "sorted_wrt (rank_rel env ?R) (matchers ?R)" and n: "name_index_ok ?R"
    by (simp_all add: reg_inv_def ranked_def)
  have 1: "sorted_wrt (\<lambda>a b. compare_matchers env (arena ?R) a b \<le> 0) (matchers ?R)"
    by (rule sorted_wrt_mono_rel [OF _ s]) (simp add: rank_rel_def)
  have 2: "inserted_before (inserted ?R) (matchers ?R ! i) (matchers ?R ! j)"
    if "i < j" "j < length (matchers ?R)"
      "compare_matchers env (arena ?R) (matchers ?R ! i) (matchers ?R ! j) = 0" for i j
    using s that by (simp add: sorted_wrt_iff_nth_less rank_rel_def)
  have 3: "m \<in> set (matchers ?R) \<and> name (mrecord (arena ?R ! m)) = Some n
      \<and> \<not> isAliasRecord (arena ?R) (Some m)" if "matcherMap ?R n = Some m" for n m
    using n that by (simp add: name_index_ok_def del: isAliasRecord.simps)
  from 1 2 3 static_before_dynamic [of env order cur] show ?thesis
    by (simp del: isAliasRecord.simps)
qed

theorem registry_ranked_and_indexed_witness:
  "comparator_ok (comparePathParserScore example_env)
   \<and> matchers (registry_after example_env
        [AddRoute (plain_route ''/:a'') None, AddRoute (plain_route ''/fixed'') None,
         AddRoute (plain_route ''/:b'') None]) = [1, 0, 2]
   \<and> sorted_wrt (\<lambda>a b. compare_matchers example_env (arena (registry_after example_env
        [AddRoute (plain_route ''/:a'') None, AddRoute (plain_route ''/fixed'') None,
         AddRoute (plain_route ''/:b'') None])) a b \<le> 0) [1, 0, 2]
   \<and> (\<exists>loc. resolve (registry_after example_env
          [AddRoute (plain_route ''/:a'') None, AddRoute (plain_route ''/fixed'') None])
          (path_target ''/fixed'') start_location = Inr loc
        \<and> map (\<lambda>m. path (mrecord (arena (registry_after example_env
          [AddRoute (plain_route ''/:a'') None, AddRoute (plain_route ''/fixed'') None]) ! m)))
            (matched loc) = [''/fixed''])"
proof -
  have m: "matchers (registry_after example_env
        [AddRoute (plain_route ''/:a'') None, AddRoute (plain_route ''/fixed'') None,
         AddRoute (plain_route ''/:b'') None]) = [1, 0, 2]"
    by (simp add: registry_after_def empty_registry_def Let_def plain_route_def addRoute.simps
        normalized_records_def normalizeRouteRecord_def nested_record_def
        createRouteRecordMatcher_def link_matcher_def next_originalMatcher_def
        insertMatcher_def compare_matchers_def example_env_def example_parser_def
        example_rank_def nth_append)
  have h: "comparePathParserScore example_env
             (tokensToParser example_env ''/fixed''
                (mergeOptions (globalOptions example_env) no_options))
             (tokensToParser example_env ''/:a''
                (mergeOptions (globalOptions example_env) no_options)) < 0
          \<and> 0 \<le> comparePathParserScore example_env
             (tokensToParser example_env ''/:a''
                (mergeOptions (globalOptions example_env) no_options))
             (tokensToParser example_env ''/fixed''
                (mergeOptions (globalOptions example_env) no_options))
          \<and> re (tokensToParser example_env ''/fixed''
                (mergeOptions (globalOptions example_env) no_options)) ''/fixed''"
    by (simp add: example_env_def example_parser_def example_rank_def)
  from registry_ranked_and_indexed [OF example_comparator_ok,
      of "[AddRoute (plain_route ''/:a'') None, AddRoute (plain_route ''/fixed'') None,
         AddRoute (plain_route ''/:b'') None]"
      "[AddRoute (plain_route ''/:a'') None, AddRoute (plain_route ''/fixed'') None]"
      start_location] m h example_comparator_ok
  show ?thesis by simp
qed

subsection \<open>resolve\<close>

lemma matched_chain_last:
  "matched_chain ar (Some m) \<noteq> [] \<and> last (matched_chain ar (Some m)) = m"
  by (cases "parent (ar ! m)") simp_all

text \<open>
  C6. A target with a path and no name resolves without an error. When some matcher of
  the ranked sequence accepts the path, the location is matched by the first such matcher:
  its record ends the matched chain and gives the name, its parser the params. When no
  matcher accepts the path, the matched chain and the params are empty and the name is
  undefined.
\<close>

theorem resolve_by_path:
  assumes "\<not> truthy_name (to_name rawLocation)" and "to_path rawLocation = Some p"
  shows "\<exists>loc. resolve reg rawLocation cur = Inr loc \<and> loc_path loc = p
           \<and> (if \<exists>m \<in> set (matchers reg). re (parser (arena reg ! m)) p
               then \<exists>i < length (matchers reg).
                      re (parser (arena reg ! (matchers reg ! i))) p
                      \<and> (\<forall>j < i. \<not> re (parser (arena reg ! (matchers reg ! j))) p)
                      \<and> matched loc \<noteq> [] \<and> last (matched loc) = matchers reg ! i
                      \<and> loc_name loc = name (mrecord (arena reg ! (matchers reg ! i)))
                      \<and> loc_params loc = parse (parser (arena reg ! (matchers reg ! i))) p
               else matched loc = [] \<and> loc_params loc = Map.empty \<and> loc_name loc = None)"
proof (cases "find (\<lambda>m. re (parser (arena reg ! m)) p) (matchers reg)")
  case None
  then have no: "\<not> (\<exists>m \<in> set (matchers reg). re (parser (arena reg ! m)) p)"
    by (simp add: find_None_iff)
  have "resolve reg rawLocation cur = Inr (located reg None None p Map.empty)"
    using assms None by (simp add: resolve_def)
  with no show ?thesis by (simp add: located_def)
next
  case (Some m)
  then obtain i where i: "i < length (matchers reg)" "re (parser (arena reg ! (matchers reg ! i))) p"
    "m = matchers reg ! i" "\<forall>j < i. \<not> re (parser (arena reg ! (matchers reg ! j))) p"
    by (auto simp: find_Some_iff)
  then have yes: "\<exists>m \<in> set (matchers reg). re (parser (arena reg ! m)) p"
    using nth_mem by blast
  have "resolve reg rawLocation cur
      = Inr (located reg (Some m) (name (mrecord (arena reg ! m))) p
               (parse (parser (arena reg ! m)) p))"
    using assms Some by (simp add: resolve_def)
  with yes i matched_chain_last [of "arena reg" m] show ?thesis
    by (simp add: located_def del: matched_chain.simps) blast
qed

theorem resolve_by_path_witness:
  "(\<exists>loc. resolve (registry_after example_env
             [AddRoute (plain_route ''/:a'') None, AddRoute (plain_route ''/fixed'') None])
           (path_target ''/fixed'') start_location = Inr loc
         \<and> loc_path loc = ''/fixed'' \<and> last (matched loc) = 1)
   \<and> (\<exists>loc. resolve (registry_after example_env
             [AddRoute (plain_route ''/:a'') None, AddRoute (plain_route ''/fixed'') None])
           (path_target ''/x/y'') start_location = Inr loc
         \<and> loc_path loc = ''/x/y'' \<and> matched loc = [] \<and> loc_name loc = None
         \<and> loc_params loc = Map.empty)"
proof -
  let ?R = "registry_after example_env
             [AddRoute (plain_route ''/:a'') None, AddRoute (plain_route ''/fixed'') None]"
  have m: "matchers ?R = [1, 0]"
    and p0: "parser (arena ?R ! 0) = example_parser ''/:a'' (globalOptions example_env)"
    and p1: "parser (arena ?R ! Suc 0) = example_parser ''/fixed'' (globalOptions example_env)"
    by (simp_all add: registry_after_def empty_registry_def Let_def plain_route_def
        addRoute.simps no_options_def mergeOptions_def
        normalized_records_def normalizeRouteRecord_def nested_record_def
        createRouteRecordMatcher_def link_matcher_def next_originalMatcher_def
        insertMatcher_def compare_matchers_def example_env_def example_parser_def
        example_rank_def nth_append)
  have a: "\<not> truthy_name (to_name (path_target q))" "to_path (path_target q) = Some q" for q
    by (simp_all add: path_target_def)
  have yes: "\<exists>m \<in> set (matchers ?R). re (parser (arena ?R ! m)) ''/fixed''"
    by (simp add: m p0 p1 example_parser_def)
  have no: "\<not> (\<exists>m \<in> set (matchers ?R). re (parser (arena ?R ! m)) ''/x/y'')"
    by (simp add: m p0 p1 example_parser_def)
  from resolve_by_path [OF a, of ?R "''/fixed''" start_location] yes
  obtain loc i where l: "resolve ?R (path_target ''/fixed'') start_location = Inr loc"
    "loc_path loc = ''/fixed''" "i < length (matchers ?R)"
    "re (parser (arena ?R ! (matchers ?R ! i))) ''/fixed''"
    "\<forall>j < i. \<not> re (parser (arena ?R ! (matchers ?R ! j))) ''/fixed''"
    "last (matched loc) = matchers ?R ! i"
    by auto
  have "i = 0"
  proof (rule ccontr)
    assume "i \<noteq> 0"
    then have "0 < i" by simp
    with l(5) have "\<not> re (parser (arena ?R ! (matchers ?R ! 0))) ''/fixed''" by blast
    then show False by (simp add: m p1 example_parser_def)
  qed
  with l have first: "\<exists>loc. resolve ?R (path_target ''/fixed'') start_location = Inr loc
         \<and> loc_path loc = ''/fixed'' \<and> last (matched loc) = 1"
    by (simp add: m)
  from resolve_by_path [OF a, of ?R "''/x/y''" start_location] no
  have second: "\<exists>loc. resolve ?R (path_target ''/x/y'') start_location = Inr loc
         \<and> loc_path loc = ''/x/y'' \<and> matched loc = [] \<and> loc_name loc = None
         \<and> loc_params loc = Map.empty"
    by auto
  from first second show ?thesis by blast
qed



subsection \<open>The body of the loop of addRoute\<close>




declare isAliasRecord.simps(2) [simp del]
declare matched_chain.simps(2) [simp del]



subsection \<open>Adding an alias record leaves the name index alone\<close>




subsection \<open>Removal cascades, and a named route replaces the route of its name\<close>








section \<open>Properties of the navigation controller\<close>

subsection \<open>Guard queues and phases\<close>

lemma runGuardQueue_append:
  "runGuardQueue cfg to from (xs @ ys) s =
     (case runGuardQueue cfg to from xs s of
        (QResolved, s', effects) \<Rightarrow>
          (case runGuardQueue cfg to from ys s' of
             (r, s'', effects') \<Rightarrow> (r, s'', effects @ effects'))
      | (r, s', effects) \<Rightarrow> (r, s', effects))"
proof (induction xs arbitrary: s)
  case Nil
  then show ?case by (simp split: prod.split)
next
  case (Cons x xs)
  show ?case
  proof (cases x)
    case (Guard g)
    then show ?thesis
      using Cons.IH
      by (simp split: prod.split queue_result.split)
  next
    case CanceledNavigationCheck
    then show ?thesis
      using Cons.IH by (simp split: option.split)
  qed
qed

lemma runGuardQueue_guards_effects:
  "runGuardQueue cfg to from (map Guard gs) s = (QResolved, s', effects)
     \<Longrightarrow> effects = map GuardCall gs"
proof (induction gs arbitrary: s effects)
  case Nil
  then show ?case by simp
next
  case (Cons g gs)
  then show ?case
    by (auto split: prod.splits queue_result.splits)
qed

lemma runGuardQueue_only_guard_calls:
  "runGuardQueue cfg to from q s = (r, s', effects) \<Longrightarrow> \<forall>e \<in> set effects. is_guard_call e"
proof (induction q arbitrary: s effects r s')
  case Nil
  then show ?case by simp
next
  case (Cons x q)
  show ?case
  proof (cases x)
    case (Guard g)
    with Cons show ?thesis
      by (auto split: prod.splits queue_result.splits)
  next
    case CanceledNavigationCheck
    with Cons show ?thesis
      by (auto split: option.splits)
  qed
qed

lemma run_phases_append:
  "run_phases cfg to from (ps @ qs) s =
     (case run_phases cfg to from ps s of
        (QResolved, s', effects) \<Rightarrow>
          (case run_phases cfg to from qs s' of
             (r, s'', effects') \<Rightarrow> (r, s'', effects @ effects'))
      | (r, s', effects) \<Rightarrow> (r, s', effects))"
proof (induction ps arbitrary: s)
  case Nil
  then show ?case by (simp split: prod.split)
next
  case (Cons p ps)
  show ?case
    using Cons.IH
    by (simp split: prod.split queue_result.split)
qed

lemma run_phases_only_guard_calls:
  "run_phases cfg to from ps s = (r, s', effects) \<Longrightarrow> \<forall>e \<in> set effects. is_guard_call e"
proof (induction ps arbitrary: s effects r s')
  case Nil
  then show ?case by simp
next
  case (Cons p ps)
  obtain r1 s1 e1 where q: "runGuardQueue cfg to from
      (phase_queue cfg p to from (phase_prepare p to s)) (phase_prepare p to s) = (r1, s1, e1)"
    by (cases "runGuardQueue cfg to from
      (phase_queue cfg p to from (phase_prepare p to s)) (phase_prepare p to s)") auto
  have g1: "\<forall>e \<in> set e1. is_guard_call e"
    using runGuardQueue_only_guard_calls [OF q] .
  show ?case
  proof (cases "r1 = QResolved")
    case True
    obtain r2 s2 e2 where rest: "run_phases cfg to from ps s1 = (r2, s2, e2)"
      by (cases "run_phases cfg to from ps s1") auto
    have "\<forall>e \<in> set e2. is_guard_call e" using Cons.IH [OF rest] .
    with Cons.prems q True rest g1 show ?thesis by auto
  next
    case False
    with Cons.prems q g1 show ?thesis by (cases r1) auto
  qed
qed

text \<open>The phase whose check finds the navigation superseded ends the chain.\<close>

lemma stale_phase:
  assumes guards: "runGuardQueue cfg to from
             (map Guard (phase_guards cfg p to from (phase_prepare p to s1)))
             (phase_prepare p to s1) = (QResolved, s2, e2)"
    and stale: "pendingLocation s2 \<noteq> token to"
  shows "run_phases cfg to from (p # after) s1 =
           (QRejected (Failure (NavigationFailure NAVIGATION_CANCELLED (token from) (token to))),
            s2, e2)"
  using assms
  by (simp add: phase_queue_def runGuardQueue_append checkCanceledNavigation_def)

lemma fresh_phase:
  assumes guards: "runGuardQueue cfg to from
             (map Guard (phase_guards cfg p to from (phase_prepare p to s1)))
             (phase_prepare p to s1) = (QResolved, s2, e2)"
    and fresh: "pendingLocation s2 = token to"
  shows "run_phases cfg to from [p] s1 = (QResolved, s2, e2)"
  using assms
  by (simp add: phase_queue_def runGuardQueue_append checkCanceledNavigation_def)

subsection \<open>Cancellation\<close>

text \<open>
  C3, as the code has it. The controller checks once in every phase, after all guards of
  the phase have settled: when the phases before have resolved and the guards of a phase
  have all allowed, exactly these guards have been called in the phase; if the pending
  location then is not the target of the navigation, \<^verbatim>\<open>navigate\<close> settles with the
  \<^verbatim>\<open>NAVIGATION_CANCELLED\<close> failure and no guard of a later phase is called; if it still
  is the target, the phase resolves and the next phase follows.
\<close>

theorem cancellation_checked_at_phase_end:
  assumes "all_phases = before @ p # after"
    and "run_phases cfg to from before s = (QResolved, s1, e1)"
    and "runGuardQueue cfg to from
           (map Guard (phase_guards cfg p to from (phase_prepare p to s1)))
           (phase_prepare p to s1) = (QResolved, s2, e2)"
  shows "e2 = map GuardCall (phase_guards cfg p to from (phase_prepare p to s1))
       \<and> (pendingLocation s2 \<noteq> token to \<longrightarrow>
            navigate cfg to from s =
              (NavResolved (Some (NavigationFailure NAVIGATION_CANCELLED (token from) (token to))),
               s2, e1 @ e2))
       \<and> (pendingLocation s2 = token to \<longrightarrow>
            run_phases cfg to from (before @ [p]) s = (QResolved, s2, e1 @ e2))"
proof -
  have a: "e2 = map GuardCall (phase_guards cfg p to from (phase_prepare p to s1))"
    using assms(3) by (rule runGuardQueue_guards_effects)
  have b: "navigate cfg to from s =
              (NavResolved (Some (NavigationFailure NAVIGATION_CANCELLED (token from) (token to))),
               s2, e1 @ e2)" if "pendingLocation s2 \<noteq> token to"
  proof -
    have "run_phases cfg to from (before @ p # after) s =
        (QRejected (Failure (NavigationFailure NAVIGATION_CANCELLED (token from) (token to))),
         s2, e1 @ e2)"
      using stale_phase [OF assms(3) that, of after] assms(2)
      by (simp add: run_phases_append del: run_phases.simps)
    then have "run_phases cfg to from all_phases s =
        (QRejected (Failure (NavigationFailure NAVIGATION_CANCELLED (token from) (token to))),
         s2, e1 @ e2)"
      by (simp only: assms(1))
    then show ?thesis by (simp add: navigate_def)
  qed
  have c: "run_phases cfg to from (before @ [p]) s = (QResolved, s2, e1 @ e2)"
    if "pendingLocation s2 = token to"
    using fresh_phase [OF assms(3) that] assms(2)
    by (simp add: run_phases_append del: run_phases.simps)
  from a b c show ?thesis by blast
qed

lemma racing_leave_phase:
  "run_phases (racing_config second) location_a START_LOCATION_NORMALIZED [LeavePhase]
     navigating_a = (QResolved, navigating_a, [])"
  by (simp add: racing_config_def location_a_def plain_location_def navigating_a_def
      two_guards_router_def initial_router_def START_LOCATION_NORMALIZED_def phase_queue_def
      phase_prepare_def extractComponentsGuards_def extractChangingRecords_def
      checkCanceledNavigation_def)

lemma racing_before_guards:
  "runGuardQueue (racing_config Allow) location_a START_LOCATION_NORMALIZED
     (map Guard (phase_guards (racing_config Allow) BeforeEachPhase location_a
        START_LOCATION_NORMALIZED (phase_prepare BeforeEachPhase location_a navigating_a)))
     (phase_prepare BeforeEachPhase location_a navigating_a)
   = (QResolved, navigating_a\<lparr> pendingLocation := 2, nextToken := 3 \<rparr>,
      [GuardCall 1, GuardCall 2])"
  by (simp add: racing_config_def location_a_def plain_location_def navigating_a_def
      two_guards_router_def initial_router_def START_LOCATION_NORMALIZED_def
      phase_prepare_def guardToPromiseFn_def)

theorem cancellation_checked_at_phase_end_witness:
  "all_phases = [LeavePhase] @ BeforeEachPhase #
      [UpdatePhase, BeforeEnterPhase, ComponentEnterPhase, BeforeResolvePhase]
   \<and> pendingLocation (navigating_a\<lparr> pendingLocation := 2, nextToken := 3 \<rparr>) \<noteq> token location_a
   \<and> navigate (racing_config Allow) location_a START_LOCATION_NORMALIZED navigating_a
       = (NavResolved (Some (NavigationFailure NAVIGATION_CANCELLED 0 1)),
          navigating_a\<lparr> pendingLocation := 2, nextToken := 3 \<rparr>, [GuardCall 1, GuardCall 2])"
proof -
  have p: "all_phases = [LeavePhase] @ BeforeEachPhase #
      [UpdatePhase, BeforeEnterPhase, ComponentEnterPhase, BeforeResolvePhase]"
    by (simp add: all_phases_def)
  have st: "pendingLocation (navigating_a\<lparr> pendingLocation := 2, nextToken := 3 \<rparr>)
      \<noteq> token location_a"
    by (simp add: location_a_def)
  from cancellation_checked_at_phase_end [OF p racing_leave_phase racing_before_guards] st p
  show ?thesis by (simp add: location_a_def START_LOCATION_NORMALIZED_def)
qed

text \<open>
  C3 as stated fails: guard 1 of the before phase settles after another navigation has
  taken the pending location, and guard 2 of the same phase is still called; the check
  comes after it.
\<close>

theorem guard_runs_after_supersession_counterexample:
  "pendingLocation (snd (guardFn (racing_config Allow) 1 location_a START_LOCATION_NORMALIZED
       navigating_a)) \<noteq> token location_a
   \<and> snd (snd (navigate (racing_config Allow) location_a START_LOCATION_NORMALIZED navigating_a))
       = [GuardCall 1, GuardCall 2]"
  by (simp add: navigate_def all_phases_def racing_config_def location_a_def plain_location_def
      navigating_a_def two_guards_router_def initial_router_def START_LOCATION_NORMALIZED_def
      phase_queue_def phase_prepare_def extractComponentsGuards_def extractChangingRecords_def
      checkCanceledNavigation_def guardToPromiseFn_def)

subsection \<open>Duplicated navigations\<close>

lemma resolve_location_currentRoute:
  "resolve_location cfg s to = Inr (l, s0) \<Longrightarrow> currentRoute s0 = currentRoute s"
  by (auto simp add: resolve_location_def split: sum.splits)

lemma triggerAfterEach_not_guard_call:
  "\<forall>e \<in> set (triggerAfterEach s to from failure). \<not> is_guard_call e \<and> \<not> persists e"
  by (simp add: triggerAfterEach_def)

lemma handleScroll_not_guard_call:
  "\<forall>e \<in> set (handleScroll cfg to from isPush isFirst). \<not> is_guard_call e \<and> \<not> persists e"
  by (simp add: handleScroll_def)






subsection \<open>Superseded navigations\<close>

lemma finalizeNavigation_stale:
  "pendingLocation s \<noteq> token toLocation \<Longrightarrow>
   finalizeNavigation cfg toLocation from isPush replace_flag data s =
     (Some (NavigationFailure NAVIGATION_CANCELLED (token from) (token toLocation)), s, [])"
  by (simp add: finalizeNavigation_def checkCanceledNavigation_def)

lemma guard_calls_persist_nothing:
  "\<forall>e \<in> set effects. is_guard_call e \<Longrightarrow> \<forall>e \<in> set effects. \<not> persists e"
proof
  fix e assume a: "\<forall>e \<in> set effects. is_guard_call e" and e: "e \<in> set effects"
  then have "is_guard_call e" by blast
  then show "\<not> persists e" by (cases e) simp_all
qed

text \<open>
  C1, as the code has it. The navigation is compared with the pending location when the
  guards of a phase have all allowed, and once more in the finalize step. When the check
  that ends a phase finds that the pending location is not the target of the navigation,
  the navigation resolves with the \<^verbatim>\<open>NAVIGATION_CANCELLED\<close> failure; it has called guards
  and notifies the after guards with the failure, and nothing else: it calls neither
  \<^verbatim>\<open>push\<close> nor \<^verbatim>\<open>replace\<close> of the history and leaves the current route as it is. A
  finalize step that finds the pending location changed returns the same failure, with
  no effect and the state unchanged.
\<close>

theorem superseded_navigation_persists_nothing:
  assumes res: "resolve_location cfg s to = Inr (targetLocation, s0)"
    and nored: "last_redirect targetLocation = None"
    and toL: "toLocation = targetLocation\<lparr> redirectedFrom := map_option token redirected \<rparr>"
    and nodup: "\<not> (force_of to \<noteq> Some True \<and> isSameRouteLocation cfg (currentRoute s) toLocation)"
    and phases: "all_phases = before @ p # after"
    and earlier: "run_phases cfg toLocation (currentRoute s) before
                    (s0\<lparr> pendingLocation := token targetLocation \<rparr>) = (QResolved, s1, e1)"
    and guards: "runGuardQueue cfg toLocation (currentRoute s)
                   (map Guard (phase_guards cfg p toLocation (currentRoute s)
                      (phase_prepare p toLocation s1)))
                   (phase_prepare p toLocation s1) = (QResolved, s2, e2)"
    and stale: "pendingLocation s2 \<noteq> token toLocation"
    and cancelled: "failure = NavigationFailure NAVIGATION_CANCELLED (token (currentRoute s))
                      (token toLocation)"
    and eff: "effects = e1 @ e2 @ triggerAfterEach s2 toLocation (currentRoute s) (Some failure)"
  shows "pushWithRedirect (Suc n) cfg to redirected s = Some (Resolved (Some failure), s2, effects)
       \<and> (\<forall>e \<in> set effects. \<not> persists e)
       \<and> finalizeNavigation cfg toLocation (currentRoute s) isPush replace_flag data s2 =
           (Some failure, s2, [])"
proof -
  let ?from = "currentRoute s"
  let ?s1 = "s0\<lparr> pendingLocation := token targetLocation \<rparr>"
  have cr: "currentRoute s0 = ?from"
    using res by (rule resolve_location_currentRoute)
  have "run_phases cfg toLocation ?from (before @ p # after) ?s1 =
      (QRejected (Failure failure), s2, e1 @ e2)"
    using stale_phase [OF guards stale, of after] earlier
    by (simp add: run_phases_append cancelled del: run_phases.simps)
  then have rp: "run_phases cfg toLocation ?from all_phases ?s1 =
      (QRejected (Failure failure), s2, e1 @ e2)"
    by (simp only: phases)
  have nav: "navigate cfg toLocation ?from ?s1 = (NavResolved (Some failure), s2, e1 @ e2)"
    using rp by (simp add: navigate_def cancelled)
  have nodup': "\<not> (force_of to \<noteq> Some True
      \<and> isSameRouteLocation cfg ?from
           (targetLocation\<lparr> redirectedFrom := map_option token redirected \<rparr>))"
    using nodup unfolding toL .
  have nav': "navigate cfg (targetLocation\<lparr> redirectedFrom := map_option token redirected \<rparr>)
      ?from ?s1 = (NavResolved (Some failure), s2, e1 @ e2)"
    using nav unfolding toL .
  have a: "pushWithRedirect (Suc n) cfg to redirected s =
      Some (Resolved (Some failure), s2, effects)"
  proof (cases "force_of to = Some True")
    case True
    with res nored nav' cr show ?thesis
      by (simp add: Let_def eff toL)
  next
    case False
    with nodup' have "\<not> isSameRouteLocation cfg ?from
        (targetLocation\<lparr> redirectedFrom := map_option token redirected \<rparr>)"
      by simp
    with res nored nav' cr show ?thesis
      by (simp add: Let_def eff toL)
  qed
  have g1: "\<forall>e \<in> set e1. \<not> persists e"
    using run_phases_only_guard_calls [OF earlier] by (rule guard_calls_persist_nothing)
  have g2: "\<forall>e \<in> set e2. \<not> persists e"
    using runGuardQueue_only_guard_calls [OF guards] by (rule guard_calls_persist_nothing)
  have b: "\<forall>e \<in> set effects. \<not> persists e"
    using g1 g2 by (auto simp add: eff triggerAfterEach_def)
  have c: "finalizeNavigation cfg toLocation ?from isPush replace_flag data s2 =
      (Some failure, s2, [])"
    using finalizeNavigation_stale [OF stale] by (simp add: cancelled)
  from a b c show ?thesis by simp
qed

theorem superseded_navigation_persists_nothing_witness:
  "pushWithRedirect 1 (racing_config Allow) (RawString ''/a'') None two_guards_router =
     Some (Resolved (Some (NavigationFailure NAVIGATION_CANCELLED 0 1)),
           navigating_a\<lparr> pendingLocation := 2, nextToken := 3 \<rparr>,
           [GuardCall 1, GuardCall 2,
            AfterEach 7 1 0 (Some (NavigationFailure NAVIGATION_CANCELLED 0 1))])
   \<and> finalizeNavigation (racing_config Allow) location_a START_LOCATION_NORMALIZED True False
       None (navigating_a\<lparr> pendingLocation := 2, nextToken := 3 \<rparr>) =
       (Some (NavigationFailure NAVIGATION_CANCELLED 0 1),
        navigating_a\<lparr> pendingLocation := 2, nextToken := 3 \<rparr>, [])"
proof -
  let ?cfg = "racing_config Allow"
  let ?s2 = "navigating_a\<lparr> pendingLocation := 2, nextToken := 3 \<rparr>"
  have cur: "currentRoute two_guards_router = START_LOCATION_NORMALIZED"
    by (simp add: two_guards_router_def initial_router_def)
  have res: "resolve_location ?cfg two_guards_router (RawString ''/a'') =
      Inr (location_a, two_guards_router\<lparr> nextToken := 2 \<rparr>)"
    by (simp add: resolve_location_def racing_config_def two_guards_router_def
        initial_router_def path_of_raw_def locationAsObject_def empty_raw_def location_a_def
        plain_location_def)
  have nored: "last_redirect location_a = None"
    by (simp add: last_redirect_def location_a_def plain_location_def)
  have toL: "location_a = location_a\<lparr> redirectedFrom := map_option token None \<rparr>"
    by (simp add: location_a_def plain_location_def)
  have nodup: "\<not> (force_of (RawString ''/a'') \<noteq> Some True
      \<and> isSameRouteLocation ?cfg (currentRoute two_guards_router) location_a)"
    by (simp add: cur racing_config_def same_route_location_def location_a_def
        plain_location_def START_LOCATION_NORMALIZED_def)
  have phases: "all_phases = [LeavePhase] @ BeforeEachPhase #
      [UpdatePhase, BeforeEnterPhase, ComponentEnterPhase, BeforeResolvePhase]"
    by (simp add: all_phases_def)
  have s1: "(two_guards_router\<lparr> nextToken := 2 \<rparr>)\<lparr> pendingLocation := token location_a \<rparr>
      = navigating_a"
    by (simp add: navigating_a_def location_a_def)
  have earlier: "run_phases ?cfg location_a (currentRoute two_guards_router) [LeavePhase]
      ((two_guards_router\<lparr> nextToken := 2 \<rparr>)\<lparr> pendingLocation := token location_a \<rparr>)
      = (QResolved, navigating_a, [])"
    unfolding s1 cur by (rule racing_leave_phase)
  have guards: "runGuardQueue ?cfg location_a (currentRoute two_guards_router)
      (map Guard (phase_guards ?cfg BeforeEachPhase location_a (currentRoute two_guards_router)
         (phase_prepare BeforeEachPhase location_a navigating_a)))
      (phase_prepare BeforeEachPhase location_a navigating_a)
      = (QResolved, ?s2, [GuardCall 1, GuardCall 2])"
    unfolding cur by (rule racing_before_guards)
  have stale: "pendingLocation ?s2 \<noteq> token location_a"
    by (simp add: location_a_def)
  have toks: "token START_LOCATION_NORMALIZED = 0" "token location_a = 1"
    by (simp_all add: START_LOCATION_NORMALIZED_def location_a_def)
  have after: "triggerAfterEach ?s2 location_a START_LOCATION_NORMALIZED
      (Some (NavigationFailure NAVIGATION_CANCELLED 0 (Suc 0)))
      = [AfterEach 7 (Suc 0) 0 (Some (NavigationFailure NAVIGATION_CANCELLED 0 (Suc 0)))]"
    by (simp add: triggerAfterEach_def navigating_a_def two_guards_router_def
        initial_router_def location_a_def START_LOCATION_NORMALIZED_def)
  from superseded_navigation_persists_nothing
    [OF res nored toL nodup phases earlier guards stale refl refl,
      of 0 True False None]
  show ?thesis
    by (simp add: cur toks after del: pushWithRedirect.simps)
qed

text \<open>
  C1 as stated fails. The navigation to \<^verbatim>\<open>/a\<close> is superseded while its first before guard
  is pending; the second before guard runs all the same and redirects to \<^verbatim>\<open>/c\<close>. The
  navigation follows the redirect, which takes the pending location back: it does not
  settle with the cancelled failure, it replaces the entry of the history and sets the
  current route.
\<close>

theorem superseded_navigation_redirects_counterexample:
  "pendingLocation (snd (guardFn (racing_config (RedirectTo (RawString ''/c''))) 1 location_a
       START_LOCATION_NORMALIZED navigating_a)) \<noteq> token location_a
   \<and> map_option (\<lambda>(out, s, effects). (out, fullPath (currentRoute s), filter persists effects))
       (pushWithRedirect 2 (racing_config (RedirectTo (RawString ''/c''))) (RawString ''/a'')
          None two_guards_router)
     = Some (Resolved None, ''/c'', [HistoryReplace ''/c'' None, SetCurrentRoute 3])"
  by (simp add: navigate_def all_phases_def racing_config_def location_a_def plain_location_def
      navigating_a_def two_guards_router_def initial_router_def START_LOCATION_NORMALIZED_def
      phase_queue_def phase_prepare_def extractComponentsGuards_def extractChangingRecords_def
      checkCanceledNavigation_def guardToPromiseFn_def resolve_location_def path_of_raw_def
      locationAsObject_def empty_raw_def last_redirect_def force_of_def state_of_def
      replace_of_def Let_def in_then_def guard_redirect_target_def finalizeNavigation_def
      markAsReady_def handleScroll_def triggerAfterEach_def clear_record_def
      same_route_location_def numeral_2_eq_2)

subsection \<open>Redirect loops\<close>

text \<open>
  C2, as the code has it. Only redirects of guards are counted, only in a development
  build, and only when the redirect of the guard leads to the location that the
  navigation is already on its way to and the navigation is itself the result of a
  redirect; the counter is kept on the location of the original request. Then the
  eleventh such redirect is rejected with the infinite redirect error, after a warning;
  up to the tenth, the counter is incremented and the navigation follows the redirect.
\<close>

theorem guard_redirect_loop_detected_in_dev:
  assumes res: "resolve_location cfg s to = Inr (targetLocation, s0)"
    and nored: "last_redirect targetLocation = None"
    and toL: "toLocation = targetLocation\<lparr> redirectedFrom := Some (token origin) \<rparr>"
    and nodup: "\<not> (force_of to \<noteq> Some True \<and> isSameRouteLocation cfg (currentRoute s) toLocation)"
    and nav: "navigate cfg toLocation (currentRoute s)
                (s0\<lparr> pendingLocation := token targetLocation \<rparr>)
              = (NavRejected (GuardRedirect target), s2, effects)"
    and dev: "dev cfg"
    and res2: "resolve_location cfg s2 target = Inr (l, s3)"
    and same: "isSameRouteLocation cfg l toLocation"
    and s4: "s4 = s3\<lparr> redirectCount :=
               (redirectCount s3)(token origin := Suc (redirectCount s3 (token origin))) \<rparr>"
  shows "(10 \<le> redirectCount s3 (token origin) \<longrightarrow>
            pushWithRedirect (Suc n) cfg to (Some origin) s =
              Some (Rejected InfiniteRedirect, s4, effects @ [Warn]))
       \<and> (redirectCount s3 (token origin) < 10 \<longrightarrow>
            pushWithRedirect (Suc n) cfg to (Some origin) s =
              in_then (pushWithRedirect n cfg
                         (guard_redirect_target target (state_of to) (force_of to) (replace_of to))
                         (Some origin) s4) effects)"
proof -
  let ?from = "currentRoute s"
  let ?to = "targetLocation\<lparr> redirectedFrom := Some (token origin) \<rparr>"
  have cr: "currentRoute s0 = ?from"
    using res by (rule resolve_location_currentRoute)
  have nav': "navigate cfg ?to ?from (s0\<lparr> pendingLocation := token targetLocation \<rparr>)
      = (NavRejected (GuardRedirect target), s2, effects)"
    using nav unfolding toL .
  have same': "isSameRouteLocation cfg l ?to"
    using same unfolding toL .
  have nodup': "\<not> (force_of to \<noteq> Some True \<and> isSameRouteLocation cfg ?from ?to)"
    using nodup unfolding toL .
  have step: "pushWithRedirect (Suc n) cfg to (Some origin) s =
      (if redirectCount s4 (token origin) > 10
       then Some (Rejected InfiniteRedirect, s4, effects @ [Warn])
       else in_then (pushWithRedirect n cfg
                       (guard_redirect_target target (state_of to) (force_of to) (replace_of to))
                       (Some origin) s4) effects)"
  proof (cases "force_of to = Some True")
    case True
    with res nored nav' cr dev res2 same' show ?thesis
      by (simp add: Let_def s4)
  next
    case False
    with nodup' have "\<not> isSameRouteLocation cfg ?from ?to" by simp
    with res nored nav' cr dev res2 same' show ?thesis
      by (simp add: Let_def s4)
  qed
  have cnt: "redirectCount s4 (token origin) = Suc (redirectCount s3 (token origin))"
    by (simp add: s4)
  show ?thesis
    unfolding step cnt by auto
qed

lemma looping_navigate:
  "navigate looping_config
     ((plain_location ''/login'' [page_record])\<lparr> token := 1, redirectedFrom := Some 1 \<rparr>)
     START_LOCATION_NORMALIZED
     (looping_router\<lparr> redirectCount := (\<lambda>t. 10), nextToken := 2, pendingLocation := 1 \<rparr>)
   = (NavRejected (GuardRedirect (RawString ''/login'')),
      looping_router\<lparr> redirectCount := (\<lambda>t. 10), nextToken := 2, pendingLocation := 1 \<rparr>,
      [GuardCall 1])"
  by (simp add: navigate_def all_phases_def looping_config_def looping_router_def
      initial_router_def plain_location_def START_LOCATION_NORMALIZED_def phase_queue_def
      phase_prepare_def extractComponentsGuards_def extractChangingRecords_def
      checkCanceledNavigation_def guardToPromiseFn_def page_record_def in_matched_def)

theorem guard_redirect_loop_detected_in_dev_witness:
  "dev looping_config
   \<and> 10 \<le> redirectCount (looping_router\<lparr> redirectCount := (\<lambda>t. 10) \<rparr>) (token location_a)
   \<and> map_option (\<lambda>(out, s, effects). (out, redirectCount s (token location_a), effects))
       (pushWithRedirect 1 looping_config (RawString ''/login'') (Some location_a)
          (looping_router\<lparr> redirectCount := (\<lambda>t. 10) \<rparr>))
     = Some (Rejected InfiniteRedirect, 11, [GuardCall 1, Warn])"
proof -
  let ?s = "looping_router\<lparr> redirectCount := (\<lambda>t. 10) \<rparr>"
  let ?target = "(plain_location ''/login'' [page_record])\<lparr> token := 1, redirectedFrom := None \<rparr>"
  let ?to = "(plain_location ''/login'' [page_record])\<lparr> token := 1, redirectedFrom := Some 1 \<rparr>"
  let ?s1 = "looping_router\<lparr> redirectCount := (\<lambda>t. 10), nextToken := 2, pendingLocation := 1 \<rparr>"
  let ?l = "(plain_location ''/login'' [page_record])\<lparr> token := 2, redirectedFrom := None \<rparr>"
  let ?s3 = "looping_router\<lparr> redirectCount := (\<lambda>t. 10), nextToken := 3, pendingLocation := 1 \<rparr>"
  have dev: "dev looping_config" by (simp add: looping_config_def)
  have cur: "currentRoute ?s = START_LOCATION_NORMALIZED"
    by (simp add: looping_router_def initial_router_def)
  have res: "resolve_location looping_config ?s (RawString ''/login'') =
      Inr (?target, ?s\<lparr> nextToken := 2 \<rparr>)"
    by (simp add: resolve_location_def looping_config_def looping_router_def
        initial_router_def path_of_raw_def locationAsObject_def empty_raw_def)
  have nored: "last_redirect ?target = None"
    by (simp add: last_redirect_def plain_location_def page_record_def)
  have toL: "?to = ?target\<lparr> redirectedFrom := Some (token location_a) \<rparr>"
    by (simp add: location_a_def plain_location_def)
  have nodup: "\<not> (force_of (RawString ''/login'') \<noteq> Some True
      \<and> isSameRouteLocation looping_config (currentRoute ?s) ?to)"
    by (simp add: cur looping_config_def same_route_location_def plain_location_def
        START_LOCATION_NORMALIZED_def)
  have nav: "navigate looping_config ?to (currentRoute ?s)
      ((?s\<lparr> nextToken := 2 \<rparr>)\<lparr> pendingLocation := token ?target \<rparr>)
      = (NavRejected (GuardRedirect (RawString ''/login'')), ?s1, [GuardCall 1])"
    using looping_navigate by (simp add: cur plain_location_def)
  have res2: "resolve_location looping_config ?s1 (RawString ''/login'') = Inr (?l, ?s3)"
    by (simp add: resolve_location_def looping_config_def looping_router_def
        initial_router_def path_of_raw_def locationAsObject_def empty_raw_def)
  have same: "isSameRouteLocation looping_config ?l ?to"
    by (simp add: looping_config_def same_route_location_def plain_location_def)
  have cnt: "10 \<le> redirectCount ?s3 (token location_a)"
    by simp
  have cnt0: "10 \<le> redirectCount ?s (token location_a)"
    by simp
  from guard_redirect_loop_detected_in_dev [OF res nored toL nodup nav dev res2 same refl, of 0]
    cnt
  have "pushWithRedirect (Suc 0) looping_config (RawString ''/login'') (Some location_a) ?s =
      Some (Rejected InfiniteRedirect,
            ?s3\<lparr> redirectCount := (redirectCount ?s3)
                    (token location_a := Suc (redirectCount ?s3 (token location_a))) \<rparr>,
            [GuardCall 1] @ [Warn])"
    by blast
  then have "map_option (\<lambda>(out, s, effects). (out, redirectCount s (token location_a), effects))
       (pushWithRedirect 1 looping_config (RawString ''/login'') (Some location_a) ?s)
     = Some (Rejected InfiniteRedirect, 11, [GuardCall 1, Warn])"
    by (simp del: pushWithRedirect.simps)
  with dev cnt0 show ?thesis by blast
qed

text \<open>
  C2 as stated fails for redirects of records, which are not counted: from \<^verbatim>\<open>/\<close> the
  records redirect eleven times in a row, each time to a path one character longer, and
  the navigation (in a development build) arrives at the twelfth location resolved.
\<close>

theorem record_redirect_chain_counterexample:
  "map_option (\<lambda>(out, s, effects). (out, nextToken s, fullPath (currentRoute s)))
     (pushWithRedirect 12 redirecting_config (RawString ''/'') None initial_router)
   = Some (Resolved None, 13, ''/xxxxxxxxxxx'')"
  by (simp add: navigate_def all_phases_def redirecting_config_def plain_location_def
      initial_router_def START_LOCATION_NORMALIZED_def
      phase_queue_def phase_prepare_def extractComponentsGuards_def extractChangingRecords_def
      checkCanceledNavigation_def guardToPromiseFn_def resolve_location_def path_of_raw_def
      locationAsObject_def empty_raw_def last_redirect_def force_of_def state_of_def
      replace_of_def Let_def in_then_def record_redirect_target_def finalizeNavigation_def
      markAsReady_def handleScroll_def triggerAfterEach_def clear_record_def
      same_route_location_def in_matched_def eval_nat_numeral)

subsection \<open>The order of the leave guards\<close>

text \<open>
  C4 at the navigation from \<^verbatim>\<open>/parent/child\<close> to a location that matches no record. The
  parent record of the current location has the leave guard 1 registered, its child
  record the leave guard 2. All guards allow. The guards registered on the records are
  called in the order of the matched records, from the root to the leaf: guard 1 of the
  parent first, then guard 2 of the child.
\<close>

theorem registered_leave_guards_run_root_to_leaf:
  "map record_id (route_matched nested_location) = [10, 11]
   \<and> leaveGuards leaving_router 10 = [1] \<and> leaveGuards leaving_router 11 = [2]
   \<and> phase_guards (racing_config Allow) LeavePhase other_location nested_location
        leaving_router = [1, 2]
   \<and> navigate (racing_config Allow) other_location nested_location leaving_router
       = (NavResolved None, leaving_router, [GuardCall 1, GuardCall 2])"
  by (simp add: navigate_def all_phases_def racing_config_def other_location_def
      nested_location_def leaving_router_def plain_location_def initial_router_def
      START_LOCATION_NORMALIZED_def phase_queue_def phase_prepare_def
      extractComponentsGuards_def extractChangingRecords_def in_matched_def
      checkCanceledNavigation_def guardToPromiseFn_def)

end
